theory Spec2Isabelle
  imports Complex_Main
begin

section \<open>Values of the program\<close>

text \<open>
  The program is the Express server \<^verbatim>\<open>src/server.js\<close>; the page script
  \<^verbatim>\<open>src/newpublic/main.js\<close> only renders the events and is not modelled. Strings are
  modelled as \<^typ>\<open>string\<close> and taken to be ASCII: \<^verbatim>\<open>toLowerCase\<close> below folds the
  letters A to Z only, which is what JavaScript does on ASCII text.

  JSON data (request bodies, event payloads) is a datatype of its own. An object is
  the list of its properties, each key once.
\<close>

datatype json =
    JNull
  | JBool bool
  | JNum rat
  | JStr string
  | JArr "json list"
  | JObj "(string \<times> json) list"

text \<open>\<^verbatim>\<open>typeof v\<close> and the truthiness of a value that may be \<^verbatim>\<open>undefined\<close> (None).\<close>

fun typeof :: "json option \<Rightarrow> string" where
  "typeof None = ''undefined''"
| "typeof (Some JNull) = ''object''"
| "typeof (Some (JBool b)) = ''boolean''"
| "typeof (Some (JNum n)) = ''number''"
| "typeof (Some (JStr s)) = ''string''"
| "typeof (Some (JArr xs)) = ''object''"
| "typeof (Some (JObj kvs)) = ''object''"

fun truthy :: "json option \<Rightarrow> bool" where
  "truthy None = False"
| "truthy (Some JNull) = False"
| "truthy (Some (JBool b)) = b"
| "truthy (Some (JNum n)) = (n \<noteq> 0)"
| "truthy (Some (JStr s)) = (s \<noteq> [])"
| "truthy (Some (JArr xs)) = True"
| "truthy (Some (JObj kvs)) = True"

text \<open>Reading property \<open>k\<close> of a value: only an object has own properties of that kind.\<close>

fun getProp :: "json \<Rightarrow> string \<Rightarrow> json option" where
  "getProp (JObj kvs) k = map_of kvs k"
| "getProp v k = None"

subsection \<open>String helpers of the JavaScript runtime\<close>

definition lowerChar :: "char \<Rightarrow> char" where
  "lowerChar c =
     (case map_of (zip ''ABCDEFGHIJKLMNOPQRSTUVWXYZ'' ''abcdefghijklmnopqrstuvwxyz'') c of
        Some l \<Rightarrow> l
      | None \<Rightarrow> c)"

definition toLowerCase :: "string \<Rightarrow> string" where
  "toLowerCase s = map lowerChar s"

definition startsWith :: "string \<Rightarrow> string \<Rightarrow> bool" where
  "startsWith s t = (take (length t) s = t)"

text \<open>\<^verbatim>\<open>s.includes(t)\<close>: \<open>t\<close> occurs in \<open>s\<close> as a contiguous substring.\<close>

fun str_includes :: "string \<Rightarrow> string \<Rightarrow> bool" where
  "str_includes [] t = (t = [])"
| "str_includes (c # s) t = (startsWith (c # s) t \<or> str_includes s t)"

text \<open>Decimal rendering of a non-negative integer inside a template string.\<close>

definition digitChar :: "nat \<Rightarrow> char" where
  "digitChar d = ''0123456789'' ! d"

function showNat :: "nat \<Rightarrow> string" where
  "showNat n =
     (if n < 10 then [digitChar n]
      else showNat (n div 10) @ [digitChar (n mod 10)])"
  by pat_completeness auto
termination
  by (relation "measure (\<lambda>n. n)") auto

declare showNat.simps [simp del]

text \<open>\<^verbatim>\<open>xs.join(sep)\<close> on an array of strings.\<close>

fun join :: "string \<Rightarrow> string list \<Rightarrow> string" where
  "join sep [] = []"
| "join sep [x] = x"
| "join sep (x # y # ys) = x @ sep @ join sep (y # ys)"

section \<open>Planner\<close>

record AgentSpec =
  a_id :: string
  a_name :: string
  a_role :: string
  a_steps :: nat

definition mkAgent :: "string \<Rightarrow> string \<Rightarrow> string \<Rightarrow> nat \<Rightarrow> AgentSpec" where
  "mkAgent i n r s = \<lparr>a_id = i, a_name = n, a_role = r, a_steps = s\<rparr>"

definition baseAgents :: "AgentSpec list" where
  "baseAgents =
     [ mkAgent ''planner'' ''Planner'' ''Break down the request'' 1,
       mkAgent ''researcher'' ''Researcher'' ''Gather data and sources'' 3,
       mkAgent ''analyst'' ''Analyst'' ''Analyze trends and insights'' 3,
       mkAgent ''visualizer'' ''Visualizer'' ''Create charts/tables'' 2,
       mkAgent ''editor'' ''Editor'' ''Compose final structured report'' 2 ]"

definition engineer :: AgentSpec where
  "engineer = mkAgent ''engineer'' ''Engineer'' ''Prototype or integrate APIs'' 2"

definition finance :: AgentSpec where
  "finance = mkAgent ''finance'' ''Finance SME'' ''Validate financial logic'' 2"

text \<open>\<^verbatim>\<open>xs.splice(i, 0, x)\<close> (insert before index \<open>i\<close>) and \<^verbatim>\<open>xs.unshift(x)\<close>.\<close>

definition splice0 :: "nat \<Rightarrow> 'a \<Rightarrow> 'a list \<Rightarrow> 'a list" where
  "splice0 i x xs = take i xs @ [x] @ drop i xs"

definition unshift :: "'a \<Rightarrow> 'a list \<Rightarrow> 'a list" where
  "unshift x xs = x # xs"

definition planAgents :: "string \<Rightarrow> AgentSpec list" where
  "planAgents requestText =
     (let lower = toLowerCase requestText;
          agents = baseAgents;
          agents = (if str_includes lower ''code'' \<or> str_includes lower ''api''
                    then splice0 2 engineer agents else agents);
          agents = (if str_includes lower ''financial'' \<or> str_includes lower ''quarter''
                    then unshift finance agents else agents)
      in agents)"

section \<open>Numbers of the JavaScript runtime\<close>

text \<open>
  A JavaScript number is a rational, an infinity or NaN. Values are kept exact: the
  rounding to binary64 and the sign of zero are not modelled, so a literal too small or
  too large for binary64, which the code reads as 0 or as an infinity, keeps its value
  here.
\<close>

datatype jsnum = NaN | NegInf | Fin rat | PosInf

fun Math_min :: "jsnum \<Rightarrow> jsnum \<Rightarrow> jsnum" where
  "Math_min NaN y = NaN"
| "Math_min x NaN = NaN"
| "Math_min NegInf y = NegInf"
| "Math_min x NegInf = NegInf"
| "Math_min PosInf y = y"
| "Math_min x PosInf = x"
| "Math_min (Fin a) (Fin b) = Fin (min a b)"

fun Math_max :: "jsnum \<Rightarrow> jsnum \<Rightarrow> jsnum" where
  "Math_max NaN y = NaN"
| "Math_max x NaN = NaN"
| "Math_max PosInf y = PosInf"
| "Math_max x PosInf = PosInf"
| "Math_max NegInf y = y"
| "Math_max x NegInf = x"
| "Math_max (Fin a) (Fin b) = Fin (max a b)"

text \<open>
  \<^verbatim>\<open>Math.random() < failRate\<close>: the left side is a finite draw; every comparison with
  NaN is false.
\<close>

fun js_less :: "rat \<Rightarrow> jsnum \<Rightarrow> bool" where
  "js_less d NaN = False"
| "js_less d NegInf = False"
| "js_less d (Fin p) = (d < p)"
| "js_less d PosInf = True"

text \<open>
  \<^verbatim>\<open>Math.round((step / totalSteps) * 100)\<close>, rounding half up, for \<open>totalSteps > 0\<close>
  (the loop body is not entered otherwise). The planner only produces step counts
  1, 2 and 3, where the binary64 computation gives the same integers as this exact one:
  100; 50, 100; 33, 67, 100.
\<close>

definition roundPercent :: "nat \<Rightarrow> nat \<Rightarrow> nat" where
  "roundPercent step totalSteps = (200 * step + totalSteps) div (2 * totalSteps)"

section \<open>Jobs\<close>

datatype Output = Output (summary: string)

record AgentRun =
  r_id :: string
  r_name :: string
  r_role :: string
  r_status :: string
  r_progress :: nat
  r_logs :: "string list"
  r_output :: "Output option"

record Result =
  res_title :: string
  res_request :: string
  res_synthesizedSummary :: string
  res_artifacts :: "json list"

record Job =
  j_id :: string
  j_status :: string
  j_createdAt :: nat
  j_agents :: "AgentRun list"
  j_result :: "Result option"

subsection \<open>JSON.stringify of the payloads\<close>

definition specJson :: "AgentSpec \<Rightarrow> json" where
  "specJson a =
     JObj [(''id'', JStr (a_id a)), (''name'', JStr (a_name a)), (''role'', JStr (a_role a)),
           (''steps'', JNum (of_nat (a_steps a)))]"

definition outputJson :: "Output \<Rightarrow> json" where
  "outputJson out = JObj [(''summary'', JStr (summary out))]"

text \<open>A property whose value is \<^verbatim>\<open>undefined\<close> is left out by \<^verbatim>\<open>JSON.stringify\<close>.\<close>

definition optField :: "string \<Rightarrow> json option \<Rightarrow> (string \<times> json) list" where
  "optField k v = (case v of None \<Rightarrow> [] | Some j \<Rightarrow> [(k, j)])"

definition runJson :: "AgentRun \<Rightarrow> json" where
  "runJson r =
     JObj ([(''id'', JStr (r_id r)), (''name'', JStr (r_name r)), (''role'', JStr (r_role r)),
            (''status'', JStr (r_status r)), (''progress'', JNum (of_nat (r_progress r))),
            (''logs'', JArr (map JStr (r_logs r)))]
           @ optField ''output'' (map_option outputJson (r_output r)))"

definition resultJson :: "Result \<Rightarrow> json" where
  "resultJson f =
     JObj [(''title'', JStr (res_title f)), (''request'', JStr (res_request f)),
           (''synthesizedSummary'', JStr (res_synthesizedSummary f)),
           (''artifacts'', JArr (res_artifacts f))]"

definition artifacts :: "json list" where
  "artifacts =
     [ JObj [(''type'', JStr ''chart''), (''format'', JStr ''svg''),
             (''url'', JStr ''/placeholder-chart.svg''),
             (''description'', JStr ''Example chart artifact'')],
       JObj [(''type'', JStr ''table''), (''format'', JStr ''json''),
             (''data'', JArr
                [ JObj [(''quarter'', JStr ''Q1''), (''revenue'', JNum 120)],
                  JObj [(''quarter'', JStr ''Q2''), (''revenue'', JNum 140)],
                  JObj [(''quarter'', JStr ''Q3''), (''revenue'', JNum 160)] ])] ]"

section \<open>Execution engine\<close>

text \<open>
  One call of \<^verbatim>\<open>executeJob\<close> works on the following state:
  \<^item> \<open>job\<close>: the job object the call creates and stores in the registry; the call
    mutates it in place, and the registry keeps a reference to it;
  \<^item> \<open>sink\<close>: the events written to the response with \<^verbatim>\<open>sseWrite\<close>, in order, each as
    its name and its data;
  \<^item> \<open>ended\<close>: whether \<^verbatim>\<open>res.end()\<close> was called;
  \<^item> \<open>drawn\<close>: how many failure draws (\<^verbatim>\<open>Math.random() < failRate\<close>) were taken;
  \<^item> \<open>seen\<close>: the job object as it stands at each \<^verbatim>\<open>await\<close>, oldest first. JavaScript
    runs the code between two suspension points without interleaving, so these, and
    the job at the return of the call, are the states another handler can read.

  The failure draws are supplied as a sequence \<open>rnd\<close>; \<open>rnd k\<close> is the \<open>k\<close>-th one.
  The draws that only set the length of a delay are not modelled.
\<close>

type_synonym event = "string \<times> json"

record exec =
  job :: Job
  sink :: "event list"
  ended :: bool
  drawn :: nat
  seen :: "Job list"

definition unit_draws :: "(nat \<Rightarrow> rat) \<Rightarrow> bool" where
  "unit_draws rnd \<longleftrightarrow> (\<forall>k. 0 \<le> rnd k \<and> rnd k < 1)"

definition sseWrite :: "string \<Rightarrow> json \<Rightarrow> exec \<Rightarrow> exec" where
  "sseWrite ev data st = st\<lparr>sink := sink st @ [(ev, data)]\<rparr>"

definition res_end :: "exec \<Rightarrow> exec" where
  "res_end st = st\<lparr>ended := True\<rparr>"

definition await :: "exec \<Rightarrow> exec" where
  "await st = st\<lparr>seen := seen st @ [job st]\<rparr>"

definition random :: "(nat \<Rightarrow> rat) \<Rightarrow> exec \<Rightarrow> rat \<times> exec" where
  "random rnd st = (rnd (drawn st), st\<lparr>drawn := Suc (drawn st)\<rparr>)"

text \<open>\<^verbatim>\<open>job.agents.push(agentRun)\<close>.\<close>

definition pushRun :: "AgentRun \<Rightarrow> exec \<Rightarrow> exec" where
  "pushRun r st = st\<lparr>job := (job st)\<lparr>j_agents := j_agents (job st) @ [r]\<rparr>\<rparr>"

text \<open>
  \<^verbatim>\<open>agentRun\<close> is the object pushed last onto \<^verbatim>\<open>job.agents\<close>; an assignment to one of its
  fields changes the last element of that array.
\<close>

definition updLast :: "('a \<Rightarrow> 'a) \<Rightarrow> 'a list \<Rightarrow> 'a list" where
  "updLast f xs = (case rev xs of [] \<Rightarrow> [] | x # ys \<Rightarrow> rev ys @ [f x])"

definition updRun :: "(AgentRun \<Rightarrow> AgentRun) \<Rightarrow> exec \<Rightarrow> exec" where
  "updRun f st = st\<lparr>job := (job st)\<lparr>j_agents := updLast f (j_agents (job st))\<rparr>\<rparr>"

definition setJobStatus :: "string \<Rightarrow> exec \<Rightarrow> exec" where
  "setJobStatus s st = st\<lparr>job := (job st)\<lparr>j_status := s\<rparr>\<rparr>"

text \<open>The result of a loop: the function returned from inside it, or the loop ran out.\<close>

datatype flow = Return exec | Next exec

text \<open>The inner loop, \<^verbatim>\<open>for (let step = 1; step <= totalSteps; step += 1)\<close>, from \<open>step\<close> on.\<close>

function stepLoop :: "AgentSpec \<Rightarrow> jsnum \<Rightarrow> (nat \<Rightarrow> rat) \<Rightarrow> nat \<Rightarrow> exec \<Rightarrow> flow" where
  "stepLoop agent failRate rnd step st =
     (let totalSteps = a_steps agent in
      if step \<le> totalSteps then
        (let st = await st;
             (d, st) = random rnd st
         in if js_less d failRate then
              (let st = updRun (\<lambda>r. r\<lparr>r_status := ''failed''\<rparr>) st;
                   message = a_name agent @ '' encountered an error at step '' @ showNat step;
                   st = sseWrite ''job-error''
                          (JObj [(''message'', JStr message), (''agentId'', JStr (a_id agent))]) st;
                   st = setJobStatus ''error'' st
               in Return (res_end st))
            else
              (let progress = roundPercent step totalSteps;
                   log = a_name agent @ '': completed step '' @ showNat step @ ''/''
                           @ showNat totalSteps;
                   st = updRun (\<lambda>r. r\<lparr>r_progress := progress\<rparr>) st;
                   st = updRun (\<lambda>r. r\<lparr>r_logs := r_logs r @ [log]\<rparr>) st;
                   st = sseWrite ''agent-progress''
                          (JObj [(''id'', JStr (a_id agent)), (''progress'', JNum (of_nat progress)),
                                 (''log'', JStr log)]) st
               in stepLoop agent failRate rnd (step + 1) st))
      else Next st)"
  by pat_completeness auto
termination
  by (relation "measure (\<lambda>(agent, failRate, rnd, step, st). Suc (a_steps agent) - step)") auto

declare stepLoop.simps [simp del]

definition newRun :: "AgentSpec \<Rightarrow> AgentRun" where
  "newRun agent =
     \<lparr>r_id = a_id agent, r_name = a_name agent, r_role = a_role agent,
      r_status = ''running'', r_progress = 0, r_logs = [], r_output = None\<rparr>"

definition agentOutput :: "AgentSpec \<Rightarrow> Output" where
  "agentOutput agent = Output (a_name agent @ '' completed: '' @ a_role agent)"

text \<open>The outer loop, \<^verbatim>\<open>for (const agent of agents)\<close>.\<close>

fun agentLoop :: "AgentSpec list \<Rightarrow> jsnum \<Rightarrow> (nat \<Rightarrow> rat) \<Rightarrow> exec \<Rightarrow> flow" where
  "agentLoop [] failRate rnd st = Next st"
| "agentLoop (agent # agents) failRate rnd st =
     (let agentRun = newRun agent;
          st = pushRun agentRun st;
          st = sseWrite ''agent-start'' (JObj [(''agent'', runJson agentRun)]) st
      in case stepLoop agent failRate rnd 1 st of
           Return st \<Rightarrow> Return st
         | Next st \<Rightarrow>
             (let output = agentOutput agent;
                  st = updRun (\<lambda>r. r\<lparr>r_status := ''completed''\<rparr>) st;
                  st = updRun (\<lambda>r. r\<lparr>r_output := Some output\<rparr>) st;
                  st = sseWrite ''agent-complete''
                         (JObj [(''id'', JStr (a_id agent)), (''output'', outputJson output)]) st
              in agentLoop agents failRate rnd st))"

text \<open>
  \<^verbatim>\<open>a.output?.summary\<close> is \<^verbatim>\<open>undefined\<close> for a run without output, and \<^verbatim>\<open>join\<close> writes
  \<^verbatim>\<open>undefined\<close> as the empty string.
\<close>

definition outputSummary :: "AgentRun \<Rightarrow> string" where
  "outputSummary a = (case r_output a of None \<Rightarrow> [] | Some out \<Rightarrow> summary out)"

definition newline :: string where
  "newline = [CHR 0x0A]"

definition aggregate :: "string \<Rightarrow> Job \<Rightarrow> Result" where
  "aggregate requestText j =
     \<lparr>res_title = ''Task Result'', res_request = requestText,
      res_synthesizedSummary = join newline (map outputSummary (j_agents j)),
      res_artifacts = artifacts\<rparr>"

definition newJob :: "string \<Rightarrow> nat \<Rightarrow> Job" where
  "newJob jobId startTime =
     \<lparr>j_id = jobId, j_status = ''running'', j_createdAt = startTime, j_agents = [],
      j_result = None\<rparr>"

definition newExec :: "Job \<Rightarrow> exec" where
  "newExec j = \<lparr>job = j, sink = [], ended = False, drawn = 0, seen = []\<rparr>"

text \<open>
  \<^verbatim>\<open>executeJob(jobId, requestText, res, {failRate})\<close>, with the clock reading \<open>now\<close> of
  \<^verbatim>\<open>Date.now()\<close> and the failure draws \<open>rnd\<close>. The call \<^verbatim>\<open>jobs.set(jobId, job)\<close> is in
  the server model below.
\<close>

definition executeJob :: "string \<Rightarrow> string \<Rightarrow> jsnum \<Rightarrow> nat \<Rightarrow> (nat \<Rightarrow> rat) \<Rightarrow> exec" where
  "executeJob jobId requestText failRate now rnd =
     (let agents = planAgents requestText;
          startTime = now;
          st = newExec (newJob jobId startTime);
          st = sseWrite ''job-start''
                 (JObj [(''jobId'', JStr jobId), (''createdAt'', JNum (of_nat startTime))]) st;
          st = sseWrite ''plan'' (JObj [(''agents'', JArr (map specJson agents))]) st
      in case agentLoop agents failRate rnd st of
           Return st \<Rightarrow> st
         | Next st \<Rightarrow>
             (let final = aggregate requestText (job st);
                  st = setJobStatus ''completed'' st;
                  st = st\<lparr>job := (job st)\<lparr>j_result := Some final\<rparr>\<rparr>;
                  st = sseWrite ''job-complete''
                         (JObj [(''jobId'', JStr jobId), (''result'', resultJson final)]) st
              in res_end st))"

section \<open>The events of a run, in closed form\<close>

text \<open>
  The events and records below are what the engine writes for one agent; the lemmas of
  the next sections prove that the engine produces exactly these.
\<close>

definition errorMessage :: "AgentSpec \<Rightarrow> nat \<Rightarrow> string" where
  "errorMessage agent step = a_name agent @ '' encountered an error at step '' @ showNat step"

definition logLine :: "AgentSpec \<Rightarrow> nat \<Rightarrow> string" where
  "logLine agent step =
     a_name agent @ '': completed step '' @ showNat step @ ''/'' @ showNat (a_steps agent)"

definition jobErrorEvent :: "AgentSpec \<Rightarrow> nat \<Rightarrow> event" where
  "jobErrorEvent agent step =
     (''job-error'', JObj [(''message'', JStr (errorMessage agent step)),
                           (''agentId'', JStr (a_id agent))])"

definition progressEvent :: "AgentSpec \<Rightarrow> nat \<Rightarrow> event" where
  "progressEvent agent step =
     (''agent-progress'',
      JObj [(''id'', JStr (a_id agent)),
            (''progress'', JNum (of_nat (roundPercent step (a_steps agent)))),
            (''log'', JStr (logLine agent step))])"

definition agentStartEvent :: "AgentSpec \<Rightarrow> event" where
  "agentStartEvent agent = (''agent-start'', JObj [(''agent'', runJson (newRun agent))])"

definition agentCompleteEvent :: "AgentSpec \<Rightarrow> event" where
  "agentCompleteEvent agent =
     (''agent-complete'',
      JObj [(''id'', JStr (a_id agent)), (''output'', outputJson (agentOutput agent))])"

text \<open>All events of an agent whose steps all succeed.\<close>

definition agentEvents :: "AgentSpec \<Rightarrow> event list" where
  "agentEvents agent =
     agentStartEvent agent # map (progressEvent agent) [1..<Suc (a_steps agent)]
       @ [agentCompleteEvent agent]"

text \<open>The run record of an agent after steps \<open>1..k\<close> succeeded, still running.\<close>

definition runAfter :: "AgentSpec \<Rightarrow> nat \<Rightarrow> AgentRun" where
  "runAfter agent k =
     (newRun agent)\<lparr>r_progress := (if k = 0 then 0 else roundPercent k (a_steps agent)),
                    r_logs := map (logLine agent) [1..<Suc k]\<rparr>"

definition completedRun :: "AgentSpec \<Rightarrow> AgentRun" where
  "completedRun agent =
     (runAfter agent (a_steps agent))\<lparr>r_status := ''completed'',
                                      r_output := Some (agentOutput agent)\<rparr>"

definition failedRun :: "AgentSpec \<Rightarrow> nat \<Rightarrow> AgentRun" where
  "failedRun agent step = (runAfter agent (step - 1))\<lparr>r_status := ''failed''\<rparr>"

definition jobStartEvent :: "string \<Rightarrow> nat \<Rightarrow> event" where
  "jobStartEvent jobId startTime =
     (''job-start'', JObj [(''jobId'', JStr jobId), (''createdAt'', JNum (of_nat startTime))])"

definition planEvent :: "AgentSpec list \<Rightarrow> event" where
  "planEvent agents = (''plan'', JObj [(''agents'', JArr (map specJson agents))])"

definition totalSteps :: "AgentSpec list \<Rightarrow> nat" where
  "totalSteps agents = sum_list (map a_steps agents)"

text \<open>No failure draw among the draws \<open>d, ..., d + m - 1\<close>.\<close>

definition noFailure :: "jsnum \<Rightarrow> (nat \<Rightarrow> rat) \<Rightarrow> nat \<Rightarrow> nat \<Rightarrow> bool" where
  "noFailure failRate rnd d m \<longleftrightarrow> (\<forall>k<m. \<not> js_less (rnd (d + k)) failRate)"

text \<open>
  One pass through the body of the inner loop, from the \<^verbatim>\<open>await\<close> on: the state after
  the suspension and the draw, and the states the two branches leave.
\<close>

definition afterDraw :: "exec \<Rightarrow> exec" where
  "afterDraw st = (await st)\<lparr>drawn := Suc (drawn st)\<rparr>"

definition failStep :: "AgentSpec \<Rightarrow> nat \<Rightarrow> exec \<Rightarrow> exec" where
  "failStep agent step st =
     res_end (setJobStatus ''error''
       (sseWrite ''job-error'' (snd (jobErrorEvent agent step))
         (updRun (\<lambda>r. r\<lparr>r_status := ''failed''\<rparr>) (afterDraw st))))"

definition okStep :: "AgentSpec \<Rightarrow> nat \<Rightarrow> exec \<Rightarrow> exec" where
  "okStep agent step st =
     sseWrite ''agent-progress'' (snd (progressEvent agent step))
       (updRun (\<lambda>r. r\<lparr>r_logs := r_logs r @ [logLine agent step]\<rparr>)
         (updRun (\<lambda>r. r\<lparr>r_progress := roundPercent step (a_steps agent)\<rparr>)
           (afterDraw st)))"

text \<open>The state in which the inner loop of an agent starts, and the one it is left in.\<close>

definition startAgent :: "AgentSpec \<Rightarrow> exec \<Rightarrow> exec" where
  "startAgent agent st =
     sseWrite ''agent-start'' (JObj [(''agent'', runJson (newRun agent))]) (pushRun (newRun agent) st)"

definition finishAgent :: "AgentSpec \<Rightarrow> exec \<Rightarrow> exec" where
  "finishAgent agent st =
     sseWrite ''agent-complete''
       (JObj [(''id'', JStr (a_id agent)), (''output'', outputJson (agentOutput agent))])
       (updRun (\<lambda>r. r\<lparr>r_output := Some (agentOutput agent)\<rparr>)
         (updRun (\<lambda>r. r\<lparr>r_status := ''completed''\<rparr>) st))"

definition jobCompleteEvent :: "string \<Rightarrow> Result \<Rightarrow> event" where
  "jobCompleteEvent jobId final =
     (''job-complete'', JObj [(''jobId'', JStr jobId), (''result'', resultJson final)])"

text \<open>The job record and the result after every agent of the plan has completed.\<close>

definition completedAgents :: "string \<Rightarrow> nat \<Rightarrow> AgentSpec list \<Rightarrow> Job" where
  "completedAgents jobId startTime agents =
     (newJob jobId startTime)\<lparr>j_agents := map completedRun agents\<rparr>"

text \<open>How many events of a given name a list holds, and the agent an event is about.\<close>

definition countEvents :: "string \<Rightarrow> event list \<Rightarrow> nat" where
  "countEvents name evs = length (filter (\<lambda>ev. fst ev = name) evs)"

definition aboutAgent :: "string \<Rightarrow> event \<Rightarrow> bool" where
  "aboutAgent aid ev \<longleftrightarrow>
     (fst ev = ''agent-start'' \<and>
        (case getProp (snd ev) ''agent'' of
           Some a \<Rightarrow> getProp a ''id'' = Some (JStr aid)
         | None \<Rightarrow> False)) \<or>
     (fst ev = ''agent-progress'' \<or> fst ev = ''agent-complete'') \<and>
        getProp (snd ev) ''id'' = Some (JStr aid)"

definition finalResult :: "string \<Rightarrow> string \<Rightarrow> nat \<Rightarrow> Result" where
  "finalResult jobId requestText startTime =
     aggregate requestText (completedAgents jobId startTime (planAgents requestText))"

text \<open>The \<^verbatim>\<open>agent-progress\<close> events that carry the identity of a given agent.\<close>

definition isProgressOf :: "string \<Rightarrow> event \<Rightarrow> bool" where
  "isProgressOf aid ev \<longleftrightarrow>
     fst ev = ''agent-progress'' \<and> getProp (snd ev) ''id'' = Some (JStr aid)"

text \<open>
  A job record as another handler may find it while the call is suspended: the job is
  running, its last run is the running one, no run has failed, and a run at 100 percent
  is completed.
\<close>

definition steady :: "Job \<Rightarrow> bool" where
  "steady j \<longleftrightarrow>
     j_status j = ''running'' \<and>
     j_agents j \<noteq> [] \<and> r_status (last (j_agents j)) = ''running'' \<and>
     (\<forall>r \<in> set (j_agents j). r_status r \<noteq> ''failed'' \<and>
        (r_progress r = 100 \<longrightarrow> r_status r = ''completed''))"

text \<open>What the failing branch changes in a job record: the two status fields.\<close>

definition failJob :: "Job \<Rightarrow> Job" where
  "failJob j =
     j\<lparr>j_status := ''error'',
       j_agents := updLast (\<lambda>r. r\<lparr>r_status := ''failed''\<rparr>) (j_agents j)\<rparr>"

section \<open>Converting a string to a number\<close>

text \<open>
  \<^verbatim>\<open>Number(s)\<close> for an ASCII string, after the grammar \<^verbatim>\<open>StringNumericLiteral\<close> of the
  language: white space (the six ASCII characters of it) is trimmed; the empty string is 0; then come an optional sign
  with \<^verbatim>\<open>Infinity\<close> or a decimal literal (digits, an optional fraction, an optional
  exponent), or an unsigned binary, octal or hexadecimal integer; anything else is NaN.
\<close>

definition isWhite :: "char \<Rightarrow> bool" where
  "isWhite c \<longleftrightarrow> c \<in> set [CHR 0x09, CHR 0x0A, CHR 0x0B, CHR 0x0C, CHR 0x0D, CHR '' '']"

definition trim :: "string \<Rightarrow> string" where
  "trim s = rev (dropWhile isWhite (rev (dropWhile isWhite s)))"

definition digitOf :: "nat \<Rightarrow> char \<Rightarrow> nat option" where
  "digitOf radix c =
     (case map_of (zip ''0123456789abcdef'' [0, 1, 2, 3, 4, 5, 6, 7, 8, 9, 10, 11, 12, 13, 14, 15])
             (lowerChar c) of
        Some d \<Rightarrow> if d < radix then Some d else None
      | None \<Rightarrow> None)"

definition isDigit :: "char \<Rightarrow> bool" where
  "isDigit c \<longleftrightarrow> digitOf 10 c \<noteq> None"

fun digitsValue :: "nat \<Rightarrow> string \<Rightarrow> nat \<Rightarrow> nat option" where
  "digitsValue radix [] acc = Some acc"
| "digitsValue radix (c # cs) acc =
     (case digitOf radix c of
        None \<Rightarrow> None
      | Some d \<Rightarrow> digitsValue radix cs (radix * acc + d))"

text \<open>A non-empty run of digits, and nothing else.\<close>

definition natLiteral :: "nat \<Rightarrow> string \<Rightarrow> nat option" where
  "natLiteral radix ds = (if ds = [] then None else digitsValue radix ds 0)"

definition exponentPart :: "string \<Rightarrow> int option" where
  "exponentPart s =
     (case s of
        [] \<Rightarrow> Some 0
      | c # r \<Rightarrow>
          if c = CHR ''e'' \<or> c = CHR ''E'' then
            (case r of
               [] \<Rightarrow> None
             | sign # ds \<Rightarrow>
                 if sign = CHR ''+'' then map_option int (natLiteral 10 ds)
                 else if sign = CHR ''-'' then map_option (\<lambda>n. - int n) (natLiteral 10 ds)
                 else map_option int (natLiteral 10 r))
          else None)"

definition scale10 :: "nat \<Rightarrow> int \<Rightarrow> rat" where
  "scale10 m e = (if 0 \<le> e then of_nat m * 10 ^ nat e else of_nat m / 10 ^ nat (- e))"

definition unsignedDecimal :: "string \<Rightarrow> jsnum" where
  "unsignedDecimal s =
     (if s = ''Infinity'' then PosInf
      else
        let ip = takeWhile isDigit s;
            r = dropWhile isDigit s;
            fp = (case r of [] \<Rightarrow> [] | c # r1 \<Rightarrow> if c = CHR ''.'' then takeWhile isDigit r1 else []);
            r' = (case r of [] \<Rightarrow> [] | c # r1 \<Rightarrow> if c = CHR ''.'' then dropWhile isDigit r1 else r)
        in if ip = [] \<and> fp = [] then NaN
           else
             (case (natLiteral 10 (ip @ fp), exponentPart r') of
                (Some m, Some e) \<Rightarrow> Fin (scale10 m (e - int (length fp)))
              | _ \<Rightarrow> NaN))"

fun negate :: "jsnum \<Rightarrow> jsnum" where
  "negate NaN = NaN"
| "negate NegInf = PosInf"
| "negate (Fin r) = Fin (- r)"
| "negate PosInf = NegInf"

definition radixLiteral :: "nat \<Rightarrow> string \<Rightarrow> jsnum" where
  "radixLiteral radix ds = (case natLiteral radix ds of None \<Rightarrow> NaN | Some n \<Rightarrow> Fin (of_nat n))"

definition Number :: "string \<Rightarrow> jsnum" where
  "Number str =
     (let s = trim str in
      if s = [] then Fin 0
      else if startsWith s ''0x'' \<or> startsWith s ''0X'' then radixLiteral 16 (drop 2 s)
      else if startsWith s ''0o'' \<or> startsWith s ''0O'' then radixLiteral 8 (drop 2 s)
      else if startsWith s ''0b'' \<or> startsWith s ''0B'' then radixLiteral 2 (drop 2 s)
      else
        (case s of
           [] \<Rightarrow> Fin 0
         | c # r \<Rightarrow>
             if c = CHR ''+'' then unsignedDecimal r
             else if c = CHR ''-'' then negate (unsignedDecimal r)
             else unsignedDecimal s))"

section \<open>The server\<close>

text \<open>
  The server's state. The job store \<^verbatim>\<open>jobs\<close> is a Map from a job identity to a job
  object, and a call of \<^verbatim>\<open>executeJob\<close> keeps changing the object it stored there. So the
  objects live in a heap, addressed by their index, and the Map holds addresses:
  \<^item> \<open>heap\<close>: the job objects created so far;
  \<^item> \<open>jobs\<close>: the Map;
  \<^item> \<open>calls\<close>: the calls of \<^verbatim>\<open>executeJob\<close> started so far, each with the address of its
    job object and the states that object will still take, one per coming suspension
    point and the last one at the return of the call;
  \<^item> \<open>issued\<close>: how many identities \<^verbatim>\<open>nanoid()\<close> has produced.

  \<^verbatim>\<open>nanoid\<close> is a library function; its results are supplied as a sequence.
\<close>

record server =
  heap :: "Job list"
  jobs :: "string \<rightharpoonup> nat"
  calls :: "(nat \<times> Job list) list"
  issued :: nat

definition init :: server where
  "init = \<lparr>heap = [], jobs = Map.empty, calls = [], issued = 0\<rparr>"

text \<open>\<^verbatim>\<open>jobs.get(jobId)\<close>: the job record the registry returns for an identity.\<close>

definition jobs_get :: "server \<Rightarrow> string \<Rightarrow> Job option" where
  "jobs_get s jobId = (case jobs s jobId of None \<Rightarrow> None | Some a \<Rightarrow> Some (heap s ! a))"

datatype response = Status400 json | Status200 json

text \<open>\<^verbatim>\<open>app.post('/api/submit')\<close>; \<open>body\<close> is \<^verbatim>\<open>req.body\<close>, None when it is \<^verbatim>\<open>undefined\<close>.\<close>

definition submit :: "(nat \<Rightarrow> string) \<Rightarrow> json option \<Rightarrow> server \<Rightarrow> response \<times> server" where
  "submit nanoid body s =
     (let obj = (case body of None \<Rightarrow> JObj [] | Some b \<Rightarrow> if truthy body then b else JObj []);
          request = getProp obj ''request''
      in if \<not> truthy request \<or> typeof request \<noteq> ''string'' then
           (Status400 (JObj [(''error'', JStr ''Missing request string'')]), s)
         else
           (let jobId = nanoid (issued s)
            in (Status200 (JObj [(''jobId'', JStr jobId)]), s\<lparr>issued := Suc (issued s)\<rparr>)))"

text \<open>
  A query parameter as Express hands it over: absent, a string, or something else (an
  array or an object, for a repeated or a bracketed parameter).
\<close>

datatype qval = QUndefined | QString string | QOther

text \<open>
  The replay branch of \<^verbatim>\<open>app.get('/api/stream/:jobId')\<close>. A run record has no \<^verbatim>\<open>steps\<close>
  field, so \<^verbatim>\<open>a.steps || 1\<close> is 1.
\<close>

definition replay :: "string \<Rightarrow> Job \<Rightarrow> event list" where
  "replay jobId existing =
     [(''job-start'',
       JObj [(''jobId'', JStr jobId), (''createdAt'', JNum (of_nat (j_createdAt existing)))]),
      (''plan'',
       JObj [(''agents'',
              JArr (map (\<lambda>a. JObj [(''id'', JStr (r_id a)), (''name'', JStr (r_name a)),
                                    (''role'', JStr (r_role a)), (''steps'', JNum 1)])
                     (j_agents existing)))])]
     @ concat (map (\<lambda>a.
          [(''agent-start'',
            JObj [(''agent'', JObj [(''id'', JStr (r_id a)), (''name'', JStr (r_name a)),
                                    (''role'', JStr (r_role a))])]),
           (''agent-progress'',
            JObj [(''id'', JStr (r_id a)), (''progress'', JNum 100),
                  (''log'', JStr (r_name a @ '' completed''))]),
           (''agent-complete'',
            JObj ((''id'', JStr (r_id a))
                  # optField ''output'' (map_option outputJson (r_output a))))])
          (j_agents existing))
     @ [(''job-complete'',
         JObj [(''jobId'', JStr jobId),
               (''result'', case j_result existing of None \<Rightarrow> JNull | Some f \<Rightarrow> resultJson f)])]"

text \<open>The failure rate the stream handler passes to \<^verbatim>\<open>executeJob\<close>.\<close>

definition streamFailRate :: "qval \<Rightarrow> jsnum" where
  "streamFailRate failRate =
     (case failRate of
        QString x \<Rightarrow> Math_max (Fin 0) (Math_min (Fin 1) (Number x))
      | _ \<Rightarrow> Fin 0)"

definition streamText :: "qval \<Rightarrow> string" where
  "streamText q = (case q of QString x \<Rightarrow> x | _ \<Rightarrow> ''General business analysis request'')"

text \<open>
  The start of a call of \<^verbatim>\<open>executeJob\<close> inside the server: the job object is allocated
  and stored under the identity (\<^verbatim>\<open>jobs.set(jobId, job)\<close>), and the call runs to its first
  suspension point, or to its return if there is none.
\<close>

definition startCall :: "string \<Rightarrow> exec \<Rightarrow> server \<Rightarrow> server" where
  "startCall jobId e s =
     (let a = length (heap s); states = seen e @ [job e]
      in s\<lparr>heap := heap s @ [hd states],
           jobs := (jobs s)(jobId \<mapsto> a),
           calls := calls s @ [(a, tl states)]\<rparr>)"

text \<open>
  \<^verbatim>\<open>app.get('/api/stream/:jobId')\<close>, with the clock reading \<open>now\<close> and the failure draws
  \<open>rnd\<close> of the call it may start. The result holds all events the response will carry;
  the state is the one in which the handler returns. The handler's \<^verbatim>\<open>catch\<close> is left out:
  no step of \<^verbatim>\<open>executeJob\<close> throws here.
\<close>

definition stream :: "string \<Rightarrow> qval \<Rightarrow> qval \<Rightarrow> nat \<Rightarrow> (nat \<Rightarrow> rat) \<Rightarrow> server
    \<Rightarrow> event list \<times> server" where
  "stream jobId q failRate now rnd s =
     (case jobs_get s jobId of
        Some existing \<Rightarrow>
          if j_status existing = ''completed'' then (replay jobId existing, s)
          else
            (let e = executeJob jobId (streamText q) (streamFailRate failRate) now rnd
             in (sink e, startCall jobId e s))
      | None \<Rightarrow>
          (let e = executeJob jobId (streamText q) (streamFailRate failRate) now rnd
           in (sink e, startCall jobId e s)))"

text \<open>The \<open>k\<close>-th call wakes up and runs to its next suspension point or to its return.\<close>

definition resume :: "nat \<Rightarrow> server \<Rightarrow> server" where
  "resume k s =
     (if k < length (calls s) then
        (case calls s ! k of
           (a, []) \<Rightarrow> s
         | (a, j # js) \<Rightarrow> s\<lparr>heap := (heap s)[a := j], calls := (calls s)[k := (a, js)]\<rparr>)
      else s)"

datatype action =
    Submit "json option"
  | Stream string qval qval nat "nat \<Rightarrow> rat"
  | Resume nat

fun perform :: "(nat \<Rightarrow> string) \<Rightarrow> action \<Rightarrow> server \<Rightarrow> server" where
  "perform nanoid (Submit body) s = snd (submit nanoid body s)"
| "perform nanoid (Stream jobId q failRate now rnd) s = snd (stream jobId q failRate now rnd s)"
| "perform nanoid (Resume k) s = resume k s"

text \<open>The states the server can be in: any sequence of requests and wake-ups.\<close>

inductive reachable :: "(nat \<Rightarrow> string) \<Rightarrow> server \<Rightarrow> bool" for nanoid where
  reachable_init: "reachable nanoid init"
| reachable_step: "reachable nanoid s \<Longrightarrow> reachable nanoid (perform nanoid act s)"

fun run :: "(nat \<Rightarrow> string) \<Rightarrow> action list \<Rightarrow> server \<Rightarrow> server" where
  "run nanoid [] s = s"
| "run nanoid (act # acts) s = run nanoid acts (perform nanoid act s)"

text \<open>
  The identity a response of the submission handler carries, if any, and the identities
  that the submissions of a sequence of requests and wake-ups return, oldest first.
\<close>

fun jobIdOf :: "response \<Rightarrow> string list" where
  "jobIdOf (Status200 v) = (case getProp v ''jobId'' of Some (JStr i) \<Rightarrow> [i] | _ \<Rightarrow> [])"
| "jobIdOf (Status400 v) = []"

fun allocated :: "(nat \<Rightarrow> string) \<Rightarrow> action list \<Rightarrow> server \<Rightarrow> string list" where
  "allocated nanoid [] s = []"
| "allocated nanoid (Submit body # acts) s =
     jobIdOf (fst (submit nanoid body s)) @ allocated nanoid acts (snd (submit nanoid body s))"
| "allocated nanoid (act # acts) s = allocated nanoid acts (perform nanoid act s)"

text \<open>Inputs used in the examples: identities \<open>a\<close>, \<open>aa\<close>, ... and draws that are all 0.\<close>

definition sampleIds :: "nat \<Rightarrow> string" where
  "sampleIds n = replicate (Suc n) (CHR ''a'')"

definition zeroDraws :: "nat \<Rightarrow> rat" where
  "zeroDraws k = 0"

text \<open>
  What holds of the server's state at all times (see \<open>reachable_server_ok\<close>): the Map and the
  calls point into the heap, no two calls share a job object, every job object has one of
  the three statuses the code assigns and no failed run while it is running, and the
  object of a call that has not returned yet is running, as are all states the call will
  still give it before its last one.
\<close>

definition known :: "Job \<Rightarrow> bool" where
  "known j \<longleftrightarrow>
     (j_status j = ''running'' \<or> j_status j = ''completed'' \<or> j_status j = ''error'') \<and>
     (j_status j = ''running'' \<longrightarrow> (\<forall>r \<in> set (j_agents j). r_status r \<noteq> ''failed''))"

definition pending_ok :: "Job \<Rightarrow> Job list \<Rightarrow> bool" where
  "pending_ok cur js \<longleftrightarrow>
     (\<forall>j \<in> set js. known j) \<and>
     (js \<noteq> [] \<longrightarrow> j_status cur = ''running'' \<and> (\<forall>j \<in> set (butlast js). j_status j = ''running''))"

definition server_ok :: "server \<Rightarrow> bool" where
  "server_ok s \<longleftrightarrow>
     (\<forall>jobId a. jobs s jobId = Some a \<longrightarrow> a < length (heap s)) \<and>
     (\<forall>j \<in> set (heap s). known j) \<and>
     distinct (map fst (calls s)) \<and>
     (\<forall>i < length (calls s).
        fst (calls s ! i) < length (heap s) \<and>
        pending_ok (heap s ! fst (calls s ! i)) (snd (calls s ! i)))"

section \<open>Properties\<close>

subsection \<open>Planner\<close>

lemma planAgents_cases:
  "planAgents t = baseAgents \<or>
   planAgents t = take 2 baseAgents @ engineer # drop 2 baseAgents \<or>
   planAgents t = finance # baseAgents \<or>
   planAgents t = finance # take 2 baseAgents @ engineer # drop 2 baseAgents"
  by (simp add: planAgents_def Let_def splice0_def unshift_def)

lemma planAgents_steps: "a \<in> set (planAgents t) \<Longrightarrow> a_steps a \<in> {1, 2, 3}"
  using planAgents_cases [of t]
  by (auto simp: baseAgents_def engineer_def finance_def mkAgent_def)

lemma planAgents_nonempty: "planAgents t \<noteq> []"
  using planAgents_cases [of t] by (auto simp: baseAgents_def)

lemma planAgents_distinct: "distinct (map a_id (planAgents t))"
  using planAgents_cases [of t]
  by (auto simp: baseAgents_def engineer_def finance_def mkAgent_def)

subsection \<open>The inner loop\<close>

lemma updLast_snoc [simp]: "updLast f (xs @ [x]) = xs @ [f x]"
  by (simp add: updLast_def)

lemma updLast_Nil [simp]: "updLast f [] = []"
  by (simp add: updLast_def)

lemma stepLoop_done: "a_steps agent < step \<Longrightarrow> stepLoop agent p rnd step st = Next st"
  by (subst stepLoop.simps) simp

lemma stepLoop_fail:
  "step \<le> a_steps agent \<Longrightarrow> js_less (rnd (drawn st)) p \<Longrightarrow>
   stepLoop agent p rnd step st = Return (failStep agent step st)"
  by (subst stepLoop.simps)
     (simp add: failStep_def afterDraw_def Let_def random_def await_def jobErrorEvent_def errorMessage_def)

lemma stepLoop_ok:
  "step \<le> a_steps agent \<Longrightarrow> \<not> js_less (rnd (drawn st)) p \<Longrightarrow>
   stepLoop agent p rnd step st = stepLoop agent p rnd (Suc step) (okStep agent step st)"
  by (subst stepLoop.simps)
     (simp add: okStep_def afterDraw_def Let_def random_def await_def progressEvent_def logLine_def)

lemma okStep_sink [simp]: "sink (okStep agent step st) = sink st @ [progressEvent agent step]"
  by (simp add: okStep_def sseWrite_def updRun_def afterDraw_def await_def progressEvent_def)

lemma okStep_drawn [simp]: "drawn (okStep agent step st) = Suc (drawn st)"
  by (simp add: okStep_def sseWrite_def updRun_def afterDraw_def await_def)

lemma okStep_ended [simp]: "ended (okStep agent step st) = ended st"
  by (simp add: okStep_def sseWrite_def updRun_def afterDraw_def await_def)

lemma okStep_seen [simp]: "seen (okStep agent step st) = seen st @ [job st]"
  by (simp add: okStep_def sseWrite_def updRun_def afterDraw_def await_def)

lemma okStep_job:
  "job (okStep agent step st) =
     (job st)\<lparr>j_agents := updLast (\<lambda>r. r\<lparr>r_progress := roundPercent step (a_steps agent),
                                           r_logs := r_logs r @ [logLine agent step]\<rparr>)
                             (j_agents (job st))\<rparr>"
  by (cases "rev (j_agents (job st))")
     (auto simp add: okStep_def sseWrite_def updRun_def afterDraw_def await_def updLast_def)

lemma failStep_sink [simp]: "sink (failStep agent step st) = sink st @ [jobErrorEvent agent step]"
  by (simp add: failStep_def res_end_def setJobStatus_def sseWrite_def updRun_def afterDraw_def
      await_def jobErrorEvent_def)

lemma failStep_ended [simp]: "ended (failStep agent step st)"
  by (simp add: failStep_def res_end_def)

lemma failStep_drawn [simp]: "drawn (failStep agent step st) = Suc (drawn st)"
  by (simp add: failStep_def res_end_def setJobStatus_def sseWrite_def updRun_def afterDraw_def
      await_def)

lemma failStep_seen [simp]: "seen (failStep agent step st) = seen st @ [job st]"
  by (simp add: failStep_def res_end_def setJobStatus_def sseWrite_def updRun_def afterDraw_def
      await_def)

lemma failStep_job:
  "job (failStep agent step st) =
     (job st)\<lparr>j_status := ''error'',
              j_agents := updLast (\<lambda>r. r\<lparr>r_status := ''failed''\<rparr>) (j_agents (job st))\<rparr>"
  by (simp add: failStep_def res_end_def setJobStatus_def sseWrite_def updRun_def afterDraw_def
      await_def)

lemma noFailure_0 [simp]: "noFailure p rnd d 0"
  by (simp add: noFailure_def)

lemma noFailure_Suc: "noFailure p rnd d (Suc m) \<longleftrightarrow> \<not> js_less (rnd d) p \<and> noFailure p rnd (Suc d) m"
  unfolding noFailure_def
proof
  assume h: "\<forall>k<Suc m. \<not> js_less (rnd (d + k)) p"
  from h have "\<not> js_less (rnd (d + 0)) p" by blast
  moreover have "\<forall>k<m. \<not> js_less (rnd (Suc d + k)) p" using h by auto
  ultimately show "\<not> js_less (rnd d) p \<and> (\<forall>k<m. \<not> js_less (rnd (Suc d + k)) p)" by simp
next
  assume h: "\<not> js_less (rnd d) p \<and> (\<forall>k<m. \<not> js_less (rnd (Suc d + k)) p)"
  show "\<forall>k<Suc m. \<not> js_less (rnd (d + k)) p"
  proof (intro allI impI)
    fix k assume "k < Suc m"
    show "\<not> js_less (rnd (d + k)) p"
    proof (cases k)
      case 0 then show ?thesis using h by simp
    next
      case (Suc k') then show ?thesis using h \<open>k < Suc m\<close> by auto
    qed
  qed
qed

lemma noFailure_add:
  "noFailure p rnd d (a + b) \<longleftrightarrow> noFailure p rnd d a \<and> noFailure p rnd (d + a) b"
  by (induction a arbitrary: d) (auto simp: noFailure_Suc)

lemma runAfter_step:
  "1 \<le> step \<Longrightarrow>
   (runAfter agent (step - 1))\<lparr>r_progress := roundPercent step (a_steps agent),
       r_logs := r_logs (runAfter agent (step - 1)) @ [logLine agent step]\<rparr> = runAfter agent step"
  by (cases step) (simp_all add: runAfter_def)

lemma stepLoop_all_ok:
  "step + m = Suc (a_steps agent) \<Longrightarrow> 1 \<le> step \<Longrightarrow>
   noFailure p rnd (drawn st) m \<Longrightarrow>
   j_agents (job st) = done @ [runAfter agent (step - 1)] \<Longrightarrow>
   \<exists>st'. stepLoop agent p rnd step st = Next st' \<and>
         sink st' = sink st @ map (progressEvent agent) [step..<Suc (a_steps agent)] \<and>
         job st' = (job st)\<lparr>j_agents := done @ [runAfter agent (a_steps agent)]\<rparr> \<and>
         drawn st' = drawn st + m \<and> ended st' = ended st \<and>
         length (seen st') = length (seen st) + m"
proof (induction m arbitrary: step st)
  case 0
  then have "step = Suc (a_steps agent)" by simp
  with 0 show ?case by (simp add: stepLoop_done)
next
  case (Suc m)
  then have le: "step \<le> a_steps agent" by simp
  from Suc.prems have ok: "\<not> js_less (rnd (drawn st)) p"
    and rest: "noFailure p rnd (drawn (okStep agent step st)) m"
    by (simp_all add: noFailure_Suc)
  have ag: "j_agents (job (okStep agent step st)) = done @ [runAfter agent (Suc step - 1)]"
    using Suc.prems runAfter_step [of step agent] by (simp add: okStep_job)
  have "Suc step + m = Suc (a_steps agent)" "1 \<le> Suc step"
    using Suc.prems by simp_all
  from Suc.IH [OF this rest ag]
  obtain st' where st': "stepLoop agent p rnd (Suc step) (okStep agent step st) = Next st'"
      "sink st' = sink (okStep agent step st) @ map (progressEvent agent) [Suc step..<Suc (a_steps agent)]"
      "job st' = (job (okStep agent step st))\<lparr>j_agents := done @ [runAfter agent (a_steps agent)]\<rparr>"
      "drawn st' = drawn (okStep agent step st) + m" "ended st' = ended (okStep agent step st)"
      "length (seen st') = length (seen (okStep agent step st)) + m"
    by auto
  have "[step..<Suc (a_steps agent)] = step # [Suc step..<Suc (a_steps agent)]"
    using le by (simp add: upt_conv_Cons)
  with st' le ok show ?case
    by (simp add: stepLoop_ok okStep_job)
qed

lemma stepLoop_fails:
  "step + m = s \<Longrightarrow> 1 \<le> step \<Longrightarrow> s \<le> a_steps agent \<Longrightarrow>
   noFailure p rnd (drawn st) m \<Longrightarrow> js_less (rnd (drawn st + m)) p \<Longrightarrow>
   j_agents (job st) = done @ [runAfter agent (step - 1)] \<Longrightarrow>
   \<exists>st'. stepLoop agent p rnd step st = Return st' \<and>
         sink st' = sink st @ map (progressEvent agent) [step..<s] @ [jobErrorEvent agent s] \<and>
         job st' = (job st)\<lparr>j_status := ''error'', j_agents := done @ [failedRun agent s]\<rparr> \<and>
         drawn st' = Suc (drawn st + m) \<and> ended st'"
proof (induction m arbitrary: step st)
  case 0
  then show ?case
    by (simp add: stepLoop_fail failStep_job failedRun_def)
next
  case (Suc m)
  then have le: "step \<le> a_steps agent" "step < s" by simp_all
  from Suc.prems have ok: "\<not> js_less (rnd (drawn st)) p"
    and rest: "noFailure p rnd (drawn (okStep agent step st)) m"
    and bad: "js_less (rnd (drawn (okStep agent step st) + m)) p"
    by (simp_all add: noFailure_Suc)
  have ag: "j_agents (job (okStep agent step st)) = done @ [runAfter agent (Suc step - 1)]"
    using Suc.prems runAfter_step [of step agent] by (simp add: okStep_job)
  have "Suc step + m = s" "1 \<le> Suc step"
    using Suc.prems by simp_all
  from Suc.IH [OF this Suc.prems(3) rest bad ag]
  obtain st' where st': "stepLoop agent p rnd (Suc step) (okStep agent step st) = Return st'"
      "sink st' = sink (okStep agent step st) @ map (progressEvent agent) [Suc step..<s]
                    @ [jobErrorEvent agent s]"
      "job st' = (job (okStep agent step st))\<lparr>j_status := ''error'',
                    j_agents := done @ [failedRun agent s]\<rparr>"
      "drawn st' = Suc (drawn (okStep agent step st) + m)" "ended st'"
    by auto
  have "[step..<s] = step # [Suc step..<s]"
    using le by (simp add: upt_conv_Cons)
  with st' le ok show ?case
    by (simp add: stepLoop_ok okStep_job)
qed

subsection \<open>The outer loop\<close>

lemma sseWrite_proj [simp]:
  "sink (sseWrite ev data st) = sink st @ [(ev, data)]"
  "job (sseWrite ev data st) = job st"
  "ended (sseWrite ev data st) = ended st"
  "drawn (sseWrite ev data st) = drawn st"
  "seen (sseWrite ev data st) = seen st"
  by (simp_all add: sseWrite_def)

lemma pushRun_proj [simp]:
  "sink (pushRun r st) = sink st"
  "job (pushRun r st) = (job st)\<lparr>j_agents := j_agents (job st) @ [r]\<rparr>"
  "ended (pushRun r st) = ended st"
  "drawn (pushRun r st) = drawn st"
  "seen (pushRun r st) = seen st"
  by (simp_all add: pushRun_def)

lemma updRun_proj [simp]:
  "sink (updRun f st) = sink st"
  "job (updRun f st) = (job st)\<lparr>j_agents := updLast f (j_agents (job st))\<rparr>"
  "ended (updRun f st) = ended st"
  "drawn (updRun f st) = drawn st"
  "seen (updRun f st) = seen st"
  by (simp_all add: updRun_def)

lemma setJobStatus_proj [simp]:
  "sink (setJobStatus s st) = sink st"
  "job (setJobStatus s st) = (job st)\<lparr>j_status := s\<rparr>"
  "ended (setJobStatus s st) = ended st"
  "drawn (setJobStatus s st) = drawn st"
  "seen (setJobStatus s st) = seen st"
  by (simp_all add: setJobStatus_def)

lemma res_end_proj [simp]:
  "sink (res_end st) = sink st"
  "job (res_end st) = job st"
  "ended (res_end st)"
  "drawn (res_end st) = drawn st"
  "seen (res_end st) = seen st"
  by (simp_all add: res_end_def)

lemma agentLoop_Cons:
  "agentLoop (agent # agents) p rnd st =
     (case stepLoop agent p rnd 1 (startAgent agent st) of
        Return st' \<Rightarrow> Return st'
      | Next st' \<Rightarrow> agentLoop agents p rnd (finishAgent agent st'))"
  by (simp add: startAgent_def finishAgent_def Let_def split: flow.split)

lemma agentLoop_append:
  "agentLoop (xs @ ys) p rnd st =
     (case agentLoop xs p rnd st of Return st' \<Rightarrow> Return st' | Next st' \<Rightarrow> agentLoop ys p rnd st')"
  by (induction xs arbitrary: st)
     (auto simp del: agentLoop.simps(2) simp add: agentLoop_Cons split: flow.splits)

lemma totalSteps_simps [simp]:
  "totalSteps [] = 0"
  "totalSteps (a # as) = a_steps a + totalSteps as"
  "totalSteps (as @ bs) = totalSteps as + totalSteps bs"
  by (simp_all add: totalSteps_def)

lemma runAfter_0 [simp]: "runAfter agent 0 = newRun agent"
  by (simp add: runAfter_def newRun_def)

lemma agent_all_ok:
  assumes nf: "noFailure p rnd (drawn st) (a_steps agent)"
  shows "\<exists>st'. stepLoop agent p rnd 1 (startAgent agent st) = Next st' \<and>
           sink (finishAgent agent st') = sink st @ agentEvents agent \<and>
           job (finishAgent agent st') = (job st)\<lparr>j_agents := j_agents (job st) @ [completedRun agent]\<rparr> \<and>
           drawn (finishAgent agent st') = drawn st + a_steps agent \<and>
           ended (finishAgent agent st') = ended st \<and>
           length (seen (finishAgent agent st')) = length (seen st) + a_steps agent"
proof -
  have "j_agents (job (startAgent agent st)) = j_agents (job st) @ [runAfter agent (1 - 1)]"
    by (simp add: startAgent_def)
  from stepLoop_all_ok [of 1 "a_steps agent" agent p rnd "startAgent agent st", OF _ _ _ this] nf
  obtain st' where st': "stepLoop agent p rnd 1 (startAgent agent st) = Next st'"
     "sink st' = sink (startAgent agent st) @ map (progressEvent agent) [1..<Suc (a_steps agent)]"
     "job st' = (job (startAgent agent st))\<lparr>j_agents := j_agents (job st) @ [runAfter agent (a_steps agent)]\<rparr>"
     "drawn st' = drawn (startAgent agent st) + a_steps agent" "ended st' = ended (startAgent agent st)"
     "length (seen st') = length (seen (startAgent agent st)) + a_steps agent"
    by (auto simp: startAgent_def)
  then show ?thesis
    by (simp add: finishAgent_def startAgent_def agentEvents_def agentStartEvent_def
        agentCompleteEvent_def completedRun_def)
qed

lemma agentLoop_all_ok:
  "noFailure p rnd (drawn st) (totalSteps agents) \<Longrightarrow>
   \<exists>st'. agentLoop agents p rnd st = Next st' \<and>
         sink st' = sink st @ concat (map agentEvents agents) \<and>
         job st' = (job st)\<lparr>j_agents := j_agents (job st) @ map completedRun agents\<rparr> \<and>
         drawn st' = drawn st + totalSteps agents \<and> ended st' = ended st \<and>
         length (seen st') = length (seen st) + totalSteps agents"
proof (induction agents arbitrary: st)
  case Nil
  then show ?case by simp
next
  case (Cons agent agents)
  from Cons.prems have nf1: "noFailure p rnd (drawn st) (a_steps agent)"
    and nf2: "noFailure p rnd (drawn st + a_steps agent) (totalSteps agents)"
    by (simp_all add: noFailure_add)
  from agent_all_ok [OF nf1] obtain st1 where st1:
     "stepLoop agent p rnd 1 (startAgent agent st) = Next st1"
     "sink (finishAgent agent st1) = sink st @ agentEvents agent"
     "job (finishAgent agent st1) = (job st)\<lparr>j_agents := j_agents (job st) @ [completedRun agent]\<rparr>"
     "drawn (finishAgent agent st1) = drawn st + a_steps agent"
     "ended (finishAgent agent st1) = ended st"
     "length (seen (finishAgent agent st1)) = length (seen st) + a_steps agent"
    by blast
  from nf2 st1 have "noFailure p rnd (drawn (finishAgent agent st1)) (totalSteps agents)"
    by simp
  from Cons.IH [OF this] obtain st' where
     "agentLoop agents p rnd (finishAgent agent st1) = Next st'"
     "sink st' = sink (finishAgent agent st1) @ concat (map agentEvents agents)"
     "job st' = (job (finishAgent agent st1))\<lparr>j_agents := j_agents (job (finishAgent agent st1)) @ map completedRun agents\<rparr>"
     "drawn st' = drawn (finishAgent agent st1) + totalSteps agents"
     "ended st' = ended (finishAgent agent st1)"
     "length (seen st') = length (seen (finishAgent agent st1)) + totalSteps agents"
    by blast
  with st1 show ?case
    by (simp add: agentLoop_Cons del: agentLoop.simps(2))
qed

lemma agentLoop_fails:
  assumes s: "1 \<le> s" "s \<le> a_steps agent"
    and nf: "noFailure p rnd (drawn st) (totalSteps before + (s - 1))"
    and bad: "js_less (rnd (drawn st + totalSteps before + (s - 1))) p"
  shows "\<exists>st'. agentLoop (before @ agent # after) p rnd st = Return st' \<and>
           sink st' = sink st @ concat (map agentEvents before) @ agentStartEvent agent
                        # map (progressEvent agent) [1..<s] @ [jobErrorEvent agent s] \<and>
           job st' = (job st)\<lparr>j_status := ''error'',
                       j_agents := j_agents (job st) @ map completedRun before @ [failedRun agent s]\<rparr> \<and>
           drawn st' = drawn st + totalSteps before + s \<and> ended st'"
proof -
  from nf have nf1: "noFailure p rnd (drawn st) (totalSteps before)"
    and nf2: "noFailure p rnd (drawn st + totalSteps before) (s - 1)"
    by (simp_all add: noFailure_add)
  from agentLoop_all_ok [OF nf1] obtain st1 where st1:
     "agentLoop before p rnd st = Next st1"
     "sink st1 = sink st @ concat (map agentEvents before)"
     "job st1 = (job st)\<lparr>j_agents := j_agents (job st) @ map completedRun before\<rparr>"
     "drawn st1 = drawn st + totalSteps before" "ended st1 = ended st"
    by blast
  let ?st2 = "startAgent agent st1"
  have ag: "j_agents (job ?st2) = (j_agents (job st) @ map completedRun before) @ [runAfter agent (1 - 1)]"
    using st1 by (simp add: startAgent_def)
  have d2: "drawn ?st2 = drawn st + totalSteps before"
    using st1 by (simp add: startAgent_def)
  have "1 + (s - 1) = s" using s by simp
  from stepLoop_fails [OF this _ s(2) _ _ ag, of p rnd] nf2 bad d2
  obtain st' where st': "stepLoop agent p rnd 1 ?st2 = Return st'"
     "sink st' = sink ?st2 @ map (progressEvent agent) [1..<s] @ [jobErrorEvent agent s]"
     "job st' = (job ?st2)\<lparr>j_status := ''error'',
         j_agents := (j_agents (job st) @ map completedRun before) @ [failedRun agent s]\<rparr>"
     "drawn st' = Suc (drawn ?st2 + (s - 1))" "ended st'"
    by auto
  with st1 s show ?thesis
    by (simp add: agentLoop_append agentLoop_Cons startAgent_def agentStartEvent_def
        del: agentLoop.simps(2))
qed

subsection \<open>The whole call\<close>

lemma executeJob_unfold:
  "executeJob jobId t p now rnd =
     (case agentLoop (planAgents t) p rnd
             ((newExec (newJob jobId now))\<lparr>sink := [jobStartEvent jobId now, planEvent (planAgents t)]\<rparr>) of
        Return st \<Rightarrow> st
      | Next st \<Rightarrow>
          res_end (sseWrite ''job-complete'' (snd (jobCompleteEvent jobId (aggregate t (job st))))
            ((setJobStatus ''completed'' st)
               \<lparr>job := (job (setJobStatus ''completed'' st))\<lparr>j_result := Some (aggregate t (job st))\<rparr>\<rparr>)))"
  by (simp add: executeJob_def Let_def sseWrite_def newExec_def jobStartEvent_def planEvent_def
      jobCompleteEvent_def split: flow.split)

lemma executeJob_all_ok:
  assumes nf: "noFailure p rnd 0 (totalSteps (planAgents t))"
  shows "sink (executeJob jobId t p now rnd) =
           jobStartEvent jobId now # planEvent (planAgents t)
             # concat (map agentEvents (planAgents t)) @ [jobCompleteEvent jobId (finalResult jobId t now)]"
    and "job (executeJob jobId t p now rnd) =
           (completedAgents jobId now (planAgents t))\<lparr>j_status := ''completed'', j_result := Some (finalResult jobId t now)\<rparr>"
    and "ended (executeJob jobId t p now rnd)"
    and "drawn (executeJob jobId t p now rnd) = totalSteps (planAgents t)"
    and "length (seen (executeJob jobId t p now rnd)) = totalSteps (planAgents t)"
proof -
  let ?st0 = "(newExec (newJob jobId now))\<lparr>sink := [jobStartEvent jobId now, planEvent (planAgents t)]\<rparr>"
  have "noFailure p rnd (drawn ?st0) (totalSteps (planAgents t))"
    using nf by (simp add: newExec_def)
  from agentLoop_all_ok [OF this] obtain st' where st':
    "agentLoop (planAgents t) p rnd ?st0 = Next st'"
    "sink st' = sink ?st0 @ concat (map agentEvents (planAgents t))"
    "job st' = (job ?st0)\<lparr>j_agents := j_agents (job ?st0) @ map completedRun (planAgents t)\<rparr>"
    "drawn st' = drawn ?st0 + totalSteps (planAgents t)" "ended st' = ended ?st0"
    "length (seen st') = length (seen ?st0) + totalSteps (planAgents t)"
    by blast
  have j: "job st' = completedAgents jobId now (planAgents t)"
    using st' by (simp add: newExec_def newJob_def completedAgents_def)
  show "sink (executeJob jobId t p now rnd) =
           jobStartEvent jobId now # planEvent (planAgents t)
             # concat (map agentEvents (planAgents t)) @ [jobCompleteEvent jobId (finalResult jobId t now)]"
    using st' j by (simp add: executeJob_unfold finalResult_def jobCompleteEvent_def)
  show "job (executeJob jobId t p now rnd) =
           (completedAgents jobId now (planAgents t))\<lparr>j_status := ''completed'', j_result := Some (finalResult jobId t now)\<rparr>"
    using st' j by (simp add: executeJob_unfold finalResult_def)
  show "ended (executeJob jobId t p now rnd)"
    using st' by (simp add: executeJob_unfold)
  show "drawn (executeJob jobId t p now rnd) = totalSteps (planAgents t)"
    using st' by (simp add: executeJob_unfold newExec_def)
  show "length (seen (executeJob jobId t p now rnd)) = totalSteps (planAgents t)"
    using st' by (simp add: executeJob_unfold newExec_def)
qed

lemma executeJob_fails:
  assumes plan: "planAgents t = before @ agent # after"
    and s: "1 \<le> s" "s \<le> a_steps agent"
    and nf: "noFailure p rnd 0 (totalSteps before + (s - 1))"
    and bad: "js_less (rnd (totalSteps before + (s - 1))) p"
  shows "sink (executeJob jobId t p now rnd) =
           jobStartEvent jobId now # planEvent (planAgents t)
             # concat (map agentEvents before) @ agentStartEvent agent
             # map (progressEvent agent) [1..<s] @ [jobErrorEvent agent s]"
    and "job (executeJob jobId t p now rnd) =
           (newJob jobId now)\<lparr>j_status := ''error'',
              j_agents := map completedRun before @ [failedRun agent s]\<rparr>"
    and "ended (executeJob jobId t p now rnd)"
    and "drawn (executeJob jobId t p now rnd) = totalSteps before + s"
proof -
  let ?st0 = "(newExec (newJob jobId now))\<lparr>sink := [jobStartEvent jobId now, planEvent (planAgents t)]\<rparr>"
  have d0: "drawn ?st0 = 0" by (simp add: newExec_def)
  from agentLoop_fails [OF s, of p rnd ?st0 before after] nf bad d0
  obtain st' where st':
    "agentLoop (before @ agent # after) p rnd ?st0 = Return st'"
    "sink st' = sink ?st0 @ concat (map agentEvents before) @ agentStartEvent agent
                        # map (progressEvent agent) [1..<s] @ [jobErrorEvent agent s]"
    "job st' = (job ?st0)\<lparr>j_status := ''error'',
                       j_agents := j_agents (job ?st0) @ map completedRun before @ [failedRun agent s]\<rparr>"
    "drawn st' = drawn ?st0 + totalSteps before + s" "ended st'"
    by auto
  show "sink (executeJob jobId t p now rnd) =
           jobStartEvent jobId now # planEvent (planAgents t)
             # concat (map agentEvents before) @ agentStartEvent agent
             # map (progressEvent agent) [1..<s] @ [jobErrorEvent agent s]"
    using st' plan by (simp add: executeJob_unfold)
  show "job (executeJob jobId t p now rnd) =
           (newJob jobId now)\<lparr>j_status := ''error'',
              j_agents := map completedRun before @ [failedRun agent s]\<rparr>"
    using st' plan by (simp add: executeJob_unfold newExec_def newJob_def)
  show "ended (executeJob jobId t p now rnd)"
    using st' plan by (simp add: executeJob_unfold)
  show "drawn (executeJob jobId t p now rnd) = totalSteps before + s"
    using st' plan by (simp add: executeJob_unfold newExec_def)
qed

lemma roundPercent_full: "0 < n \<Longrightarrow> roundPercent n n = 100"
proof -
  assume "0 < n"
  then have "(200 * n + n) div (2 * n) = 100"
    by (intro div_nat_eqI) simp_all
  then show ?thesis by (simp add: roundPercent_def)
qed

lemma locate_step:
  "k < totalSteps agents \<Longrightarrow>
   \<exists>before agent after s. agents = before @ agent # after \<and> 1 \<le> s \<and> s \<le> a_steps agent \<and>
      k = totalSteps before + (s - 1)"
proof (induction agents arbitrary: k)
  case Nil
  then show ?case by simp
next
  case (Cons a as)
  show ?case
  proof (cases "k < a_steps a")
    case True
    have "a # as = [] @ a # as \<and> 1 \<le> Suc k \<and> Suc k \<le> a_steps a \<and> k = totalSteps [] + (Suc k - 1)"
      using True by simp
    then show ?thesis by blast
  next
    case False
    then have "k - a_steps a < totalSteps as" using Cons.prems by simp
    from Cons.IH [OF this] obtain before agent after s where
      h: "as = before @ agent # after" "1 \<le> s" "s \<le> a_steps agent"
         "k - a_steps a = totalSteps before + (s - 1)"
      by blast
    then have "a # as = (a # before) @ agent # after \<and> 1 \<le> s \<and> s \<le> a_steps agent \<and>
        k = totalSteps (a # before) + (s - 1)"
      using False by simp
    then show ?thesis by blast
  qed
qed

lemma first_failure:
  assumes "\<not> noFailure p rnd 0 (totalSteps agents)"
  shows "\<exists>before agent after s. agents = before @ agent # after \<and> 1 \<le> s \<and> s \<le> a_steps agent \<and>
           noFailure p rnd 0 (totalSteps before + (s - 1)) \<and>
           js_less (rnd (totalSteps before + (s - 1))) p"
proof -
  define k where "k = (LEAST k. js_less (rnd k) p)"
  from assms obtain k0 where k0: "k0 < totalSteps agents" "js_less (rnd k0) p"
    by (auto simp: noFailure_def)
  have bad: "js_less (rnd k) p"
    unfolding k_def using k0(2) by (rule LeastI)
  have least: "\<And>i. i < k \<Longrightarrow> \<not> js_less (rnd i) p"
    unfolding k_def by (rule not_less_Least)
  have "k \<le> k0" unfolding k_def using k0(2) by (rule Least_le)
  with k0 have "k < totalSteps agents" by simp
  from locate_step [OF this] obtain before agent after s where
    h: "agents = before @ agent # after" "1 \<le> s" "s \<le> a_steps agent"
       "k = totalSteps before + (s - 1)"
    by blast
  have "noFailure p rnd 0 (totalSteps before + (s - 1))"
    using least h(4) by (simp add: noFailure_def)
  with h bad show ?thesis by blast
qed

subsection \<open>Events and records of the closed form\<close>

lemma agentEvents_names:
  "ev \<in> set (agentEvents a) \<Longrightarrow>
   fst ev = ''agent-start'' \<or> fst ev = ''agent-progress'' \<or> fst ev = ''agent-complete''"
  by (auto simp: agentEvents_def agentStartEvent_def progressEvent_def agentCompleteEvent_def)

lemma countEvents_simps [simp]:
  "countEvents name [] = 0"
  "countEvents name (ev # evs) = (if fst ev = name then 1 else 0) + countEvents name evs"
  "countEvents name (evs @ evs') = countEvents name evs + countEvents name evs'"
  by (simp_all add: countEvents_def)

lemma countEvents_agentEvents:
  "name \<noteq> ''agent-start'' \<Longrightarrow> name \<noteq> ''agent-progress'' \<Longrightarrow> name \<noteq> ''agent-complete'' \<Longrightarrow>
   countEvents name (concat (map agentEvents agents)) = 0"
  by (induction agents)
     (auto simp: countEvents_def filter_empty_conv dest: agentEvents_names)

lemma countEvents_progress:
  "name \<noteq> ''agent-progress'' \<Longrightarrow> countEvents name (map (progressEvent a) ks) = 0"
  by (induction ks) (auto simp: progressEvent_def)

lemma event_names [simp]:
  "fst (jobStartEvent jobId now) = ''job-start''"
  "fst (planEvent agents) = ''plan''"
  "fst (agentStartEvent a) = ''agent-start''"
  "fst (progressEvent a k) = ''agent-progress''"
  "fst (agentCompleteEvent a) = ''agent-complete''"
  "fst (jobErrorEvent a k) = ''job-error''"
  "fst (jobCompleteEvent jobId f) = ''job-complete''"
  by (simp_all add: jobStartEvent_def planEvent_def agentStartEvent_def progressEvent_def
      agentCompleteEvent_def jobErrorEvent_def jobCompleteEvent_def)

lemma aboutAgent_simps [simp]:
  "\<not> aboutAgent x (jobStartEvent jobId now)"
  "\<not> aboutAgent x (planEvent agents)"
  "\<not> aboutAgent x (jobErrorEvent a k)"
  "\<not> aboutAgent x (jobCompleteEvent jobId f)"
  "aboutAgent x (agentStartEvent a) \<longleftrightarrow> x = a_id a"
  "aboutAgent x (progressEvent a k) \<longleftrightarrow> x = a_id a"
  "aboutAgent x (agentCompleteEvent a) \<longleftrightarrow> x = a_id a"
  by (auto simp: aboutAgent_def jobStartEvent_def planEvent_def agentStartEvent_def
      progressEvent_def agentCompleteEvent_def jobErrorEvent_def jobCompleteEvent_def
      runJson_def newRun_def)

lemma aboutAgent_agentEvents:
  "ev \<in> set (agentEvents a) \<Longrightarrow> aboutAgent x ev \<longleftrightarrow> x = a_id a"
  by (auto simp: agentEvents_def)

lemma completedRun_fields [simp]:
  "r_id (completedRun a) = a_id a"
  "r_status (completedRun a) = ''completed''"
  "r_progress (completedRun a) = (if a_steps a = 0 then 0 else roundPercent (a_steps a) (a_steps a))"
  "r_output (completedRun a) = Some (agentOutput a)"
  "outputSummary (completedRun a) = a_name a @ '' completed: '' @ a_role a"
  by (simp_all add: completedRun_def runAfter_def newRun_def outputSummary_def agentOutput_def)

lemma failedRun_fields [simp]:
  "r_id (failedRun a s) = a_id a"
  "r_status (failedRun a s) = ''failed''"
  "r_logs (failedRun a s) = map (logLine a) [1..<s]"
  by (cases s; simp add: failedRun_def runAfter_def newRun_def)+

lemma unit_draws_no_failure_0: "unit_draws rnd \<Longrightarrow> noFailure (Fin 0) rnd d m"
  by (simp add: unit_draws_def noFailure_def not_less)

subsection \<open>Runs without failure\<close>

text \<open>
  Claim C4. A job run with failure probability 0 (draws taken from the unit interval, as
  \<^verbatim>\<open>Math.random\<close> gives them) writes exactly one \<^verbatim>\<open>job-complete\<close> event, as its last
  event, and no \<^verbatim>\<open>job-error\<close>; the job ends \<^verbatim>\<open>completed\<close>, with one run per planned agent
  in plan order, each \<^verbatim>\<open>completed\<close> with progress 100; and the stored result's
  synthesized summary is the output summaries of the runs, in that order, joined by
  newlines.
\<close>

theorem failure_rate_zero_completes:
  assumes "unit_draws rnd"
  shows "let e = executeJob jobId t (Fin 0) now rnd in
           countEvents ''job-complete'' (sink e) = 1 \<and>
           fst (last (sink e)) = ''job-complete'' \<and>
           countEvents ''job-error'' (sink e) = 0 \<and>
           j_status (job e) = ''completed'' \<and>
           map r_id (j_agents (job e)) = map a_id (planAgents t) \<and>
           (\<forall>r \<in> set (j_agents (job e)). r_status r = ''completed'' \<and> r_progress r = 100) \<and>
           (\<exists>f. j_result (job e) = Some f \<and>
                res_synthesizedSummary f = join newline (map outputSummary (j_agents (job e)))) \<and>
           map outputSummary (j_agents (job e)) =
             map (\<lambda>a. a_name a @ '' completed: '' @ a_role a) (planAgents t)"
proof -
  have nf: "noFailure (Fin 0) rnd 0 (totalSteps (planAgents t))"
    using assms by (rule unit_draws_no_failure_0)
  note ok = executeJob_all_ok [OF nf, of jobId now]
  have pos: "\<And>a. a \<in> set (planAgents t) \<Longrightarrow> 0 < a_steps a"
    using planAgents_steps by fastforce
  have runs: "\<forall>r \<in> set (map completedRun (planAgents t)). r_status r = ''completed'' \<and> r_progress r = 100"
    using pos by (auto simp: roundPercent_full)
  show ?thesis
    unfolding Let_def ok(1) ok(2)
    using runs
    by (simp add: countEvents_agentEvents completedAgents_def finalResult_def aggregate_def
        newJob_def comp_def)
qed

theorem failure_rate_zero_completes_witness:
  "unit_draws (\<lambda>k. 0) \<and>
   (let e = executeJob ''j1'' ''hello'' (Fin 0) 7 (\<lambda>k. 0) in
      countEvents ''job-complete'' (sink e) = 1 \<and>
      fst (last (sink e)) = ''job-complete'' \<and>
      countEvents ''job-error'' (sink e) = 0 \<and>
      j_status (job e) = ''completed'' \<and>
      map r_id (j_agents (job e)) = map a_id (planAgents ''hello'') \<and>
      (\<forall>r \<in> set (j_agents (job e)). r_status r = ''completed'' \<and> r_progress r = 100) \<and>
      (\<exists>f. j_result (job e) = Some f \<and>
           res_synthesizedSummary f = join newline (map outputSummary (j_agents (job e)))) \<and>
      map outputSummary (j_agents (job e)) =
        map (\<lambda>a. a_name a @ '' completed: '' @ a_role a) (planAgents ''hello''))"
proof -
  have h: "unit_draws (\<lambda>k. 0)" by (simp add: unit_draws_def)
  from failure_rate_zero_completes [OF h, of "''j1''" "''hello''" 7] h show ?thesis by blast
qed

subsection \<open>Progress events\<close>

lemma concat_select_none:
  "f a \<notin> f ` set ys \<Longrightarrow> concat (map (\<lambda>b. if f b = f a then g b else []) ys) = []"
  by (induction ys) auto

lemma concat_select:
  "distinct (map f xs) \<Longrightarrow> a \<in> set xs \<Longrightarrow>
   concat (map (\<lambda>b. if f b = f a then g b else []) xs) = g a"
proof (induction xs)
  case Nil
  then show ?case by simp
next
  case (Cons x xs)
  show ?case
  proof (cases "x = a")
    case True
    with Cons.prems have "f a \<notin> f ` set xs" by simp
    with True show ?thesis by (simp add: concat_select_none)
  next
    case False
    with Cons.prems have "a \<in> set xs" "f x \<noteq> f a" by auto
    with Cons show ?thesis by simp
  qed
qed

lemma filter_progress_agentEvents:
  "filter (isProgressOf x) (agentEvents b) =
     (if a_id b = x then map (progressEvent b) [1..<Suc (a_steps b)] else [])"
proof -
  have "\<And>ks. filter (isProgressOf x) (map (progressEvent b) ks) =
      (if a_id b = x then map (progressEvent b) ks else [])"
    by (induct_tac ks) (auto simp: isProgressOf_def progressEvent_def)
  then show ?thesis
    by (simp add: agentEvents_def isProgressOf_def agentStartEvent_def agentCompleteEvent_def)
qed

text \<open>
  Claim C10. In a live run in which no failure draw succeeds, every agent of the plan
  gets exactly as many \<^verbatim>\<open>agent-progress\<close> events as it has steps: one per step
  \<open>1, ..., totalSteps\<close>, in that order, the event of step \<open>step\<close> carrying the progress
  \<open>round(step / totalSteps * 100)\<close> and the log line of that step.
\<close>

theorem one_progress_event_per_step:
  assumes "noFailure p rnd 0 (totalSteps (planAgents t))"
    and "agent \<in> set (planAgents t)"
  shows "length (filter (isProgressOf (a_id agent)) (sink (executeJob jobId t p now rnd)))
           = a_steps agent \<and>
         filter (isProgressOf (a_id agent)) (sink (executeJob jobId t p now rnd)) =
           map (\<lambda>step. (''agent-progress'',
                  JObj [(''id'', JStr (a_id agent)),
                        (''progress'', JNum (of_nat (roundPercent step (a_steps agent)))),
                        (''log'', JStr (a_name agent @ '': completed step '' @ showNat step @ ''/''
                                          @ showNat (a_steps agent)))]))
               [1..<Suc (a_steps agent)]"
proof -
  have "filter (isProgressOf (a_id agent)) (concat (map agentEvents (planAgents t))) =
        concat (map (\<lambda>b. if a_id b = a_id agent then map (progressEvent b) [1..<Suc (a_steps b)] else [])
                  (planAgents t))"
    by (simp add: filter_concat comp_def filter_progress_agentEvents)
  also have "\<dots> = map (progressEvent agent) [1..<Suc (a_steps agent)]"
    using planAgents_distinct assms(2) by (rule concat_select)
  finally have "filter (isProgressOf (a_id agent)) (concat (map agentEvents (planAgents t))) =
      map (progressEvent agent) [1..<Suc (a_steps agent)]" .
  then have "filter (isProgressOf (a_id agent)) (sink (executeJob jobId t p now rnd)) =
      map (progressEvent agent) [1..<Suc (a_steps agent)]"
    unfolding executeJob_all_ok(1) [OF assms(1)]
    by (simp add: isProgressOf_def)
  then show ?thesis
    by (simp add: progressEvent_def logLine_def [abs_def])
qed

theorem one_progress_event_per_step_witness:
  "noFailure (Fin 0) (\<lambda>k. 0) 0 (totalSteps (planAgents ''hello'')) \<and>
   mkAgent ''researcher'' ''Researcher'' ''Gather data and sources'' 3 \<in> set (planAgents ''hello'') \<and>
   length (filter (isProgressOf ''researcher'')
             (sink (executeJob ''j1'' ''hello'' (Fin 0) 7 (\<lambda>k. 0)))) = 3 \<and>
   filter (isProgressOf ''researcher'') (sink (executeJob ''j1'' ''hello'' (Fin 0) 7 (\<lambda>k. 0))) =
     [(''agent-progress'', JObj [(''id'', JStr ''researcher''), (''progress'', JNum 33),
                                 (''log'', JStr ''Researcher: completed step 1/3'')]),
      (''agent-progress'', JObj [(''id'', JStr ''researcher''), (''progress'', JNum 67),
                                 (''log'', JStr ''Researcher: completed step 2/3'')]),
      (''agent-progress'', JObj [(''id'', JStr ''researcher''), (''progress'', JNum 100),
                                 (''log'', JStr ''Researcher: completed step 3/3'')])]"
proof -
  have h1: "noFailure (Fin 0) (\<lambda>k. 0) 0 (totalSteps (planAgents ''hello''))"
    by (simp add: noFailure_def)
  have h2: "mkAgent ''researcher'' ''Researcher'' ''Gather data and sources'' 3 \<in> set (planAgents ''hello'')"
    by (simp add: planAgents_def toLowerCase_def lowerChar_def startsWith_def baseAgents_def)
  have up: "[Suc 0..<4] = [1, 2, 3]" by code_simp
  have sh: "showNat (Suc 0) = ''1''" "showNat 2 = ''2''" "showNat 3 = ''3''"
    by (simp_all add: showNat.simps digitChar_def)
  from one_progress_event_per_step [OF h1 h2, of "''j1''" 7] h1 h2 show ?thesis
    by (simp add: mkAgent_def up sh roundPercent_def)
qed

subsection \<open>Failure\<close>

lemma unit_draws_failure_1: "unit_draws rnd \<Longrightarrow> js_less (rnd k) (Fin 1)"
  by (simp add: unit_draws_def)

lemma planAgents_head: "\<exists>a rest. planAgents t = a # rest \<and> 1 \<le> a_steps a"
  using planAgents_cases [of t]
  by (auto simp: baseAgents_def engineer_def finance_def mkAgent_def)

lemma aboutAgent_concat:
  "ev \<in> set (concat (map agentEvents agents)) \<Longrightarrow> aboutAgent x ev \<Longrightarrow> x \<in> a_id ` set agents"
  by (auto simp: aboutAgent_agentEvents)

lemma aboutAgent_progress:
  "ev \<in> set (map (progressEvent a) ks) \<Longrightarrow> aboutAgent x ev \<Longrightarrow> x = a_id a"
  by auto

text \<open>
  Claim C3. Let the first failure draw that succeeds be the one of step \<open>s\<close> of
  \<open>agent\<close>, the agents \<open>before\<close> it in the plan having completed. Then the run of that
  agent is marked \<^verbatim>\<open>failed\<close> and the job \<^verbatim>\<open>error\<close>, with no result; the events are those
  of the completed agents, the start of the failing agent and its progress up to step
  \<open>s - 1\<close>, and then one \<^verbatim>\<open>job-error\<close> event, the last one, which names the agent and the
  step; there is no \<^verbatim>\<open>job-complete\<close>, no event about an agent \<open>after\<close> the failing one, and
  no further draw is taken. (Every run in which one of the draws it takes succeeds has
  such a first one, by \<open>first_failure\<close>.) With failure probability 1 and draws from the
  unit interval the first step of the first agent fails: the events are \<^verbatim>\<open>job-start\<close>,
  \<^verbatim>\<open>plan\<close>, \<^verbatim>\<open>agent-start\<close>, \<^verbatim>\<open>job-error\<close>, with no \<^verbatim>\<open>job-complete\<close> and no
  \<^verbatim>\<open>agent-complete\<close>.
\<close>

theorem failure_ends_job:
  "(planAgents t = before @ agent # after \<and> 1 \<le> s \<and> s \<le> a_steps agent \<and>
    noFailure p rnd 0 (totalSteps before + (s - 1)) \<and>
    js_less (rnd (totalSteps before + (s - 1))) p \<longrightarrow>
      (let e = executeJob jobId t p now rnd in
         j_status (job e) = ''error'' \<and> j_result (job e) = None \<and>
         j_agents (job e) = map completedRun before @ [failedRun agent s] \<and>
         r_id (last (j_agents (job e))) = a_id agent \<and>
         r_status (last (j_agents (job e))) = ''failed'' \<and>
         sink e = jobStartEvent jobId now # planEvent (planAgents t)
                    # concat (map agentEvents before) @ agentStartEvent agent
                    # map (progressEvent agent) [1..<s]
                    @ [(''job-error'',
                        JObj [(''message'', JStr (a_name agent @ '' encountered an error at step ''
                                                    @ showNat s)),
                              (''agentId'', JStr (a_id agent))])] \<and>
         countEvents ''job-error'' (sink e) = 1 \<and>
         countEvents ''job-complete'' (sink e) = 0 \<and>
         countEvents ''agent-complete'' (sink e) = length before \<and>
         (\<forall>b \<in> set after. \<forall>ev \<in> set (sink e). \<not> aboutAgent (a_id b) ev) \<and>
         ended e \<and> drawn e = totalSteps before + s))
   \<and>
   (unit_draws rnd \<longrightarrow>
      (let e = executeJob jobId t (Fin 1) now rnd; first = hd (planAgents t) in
         sink e = [jobStartEvent jobId now, planEvent (planAgents t), agentStartEvent first,
                   jobErrorEvent first 1] \<and>
         countEvents ''job-error'' (sink e) = 1 \<and>
         countEvents ''job-complete'' (sink e) = 0 \<and>
         countEvents ''agent-complete'' (sink e) = 0 \<and>
         j_status (job e) = ''error'' \<and> j_agents (job e) = [failedRun first 1]))"
proof (intro conjI impI)
  assume h: "planAgents t = before @ agent # after \<and> 1 \<le> s \<and> s \<le> a_steps agent \<and>
    noFailure p rnd 0 (totalSteps before + (s - 1)) \<and>
    js_less (rnd (totalSteps before + (s - 1))) p"
  then have plan: "planAgents t = before @ agent # after" and s: "1 \<le> s" "s \<le> a_steps agent"
    and nf: "noFailure p rnd 0 (totalSteps before + (s - 1))"
    and bad: "js_less (rnd (totalSteps before + (s - 1))) p"
    by blast+
  note f = executeJob_fails [OF plan s nf bad, of jobId now]
  have dist: "distinct (map a_id (before @ agent # after))"
    using planAgents_distinct [of t] plan by simp
  have cnt: "countEvents ''agent-complete'' (concat (map agentEvents before)) = length before"
    by (induction before)
       (simp_all add: agentEvents_def countEvents_progress)
  have later: "\<forall>b \<in> set after. \<forall>ev \<in> set (sink (executeJob jobId t p now rnd)).
      \<not> aboutAgent (a_id b) ev"
  proof (intro ballI notI)
    fix b ev
    assume b: "b \<in> set after" and ev: "ev \<in> set (sink (executeJob jobId t p now rnd))"
      and ab: "aboutAgent (a_id b) ev"
    from ev ab have "a_id b \<in> a_id ` set before \<or> a_id b = a_id agent"
      unfolding f(1) by (auto simp: aboutAgent_agentEvents)
    moreover from dist b have "a_id b \<notin> a_id ` set before" "a_id agent \<noteq> a_id b"
      by (simp_all add: disjoint_iff image_iff) blast+
    ultimately show False by simp
  qed
  show "let e = executeJob jobId t p now rnd in
         j_status (job e) = ''error'' \<and> j_result (job e) = None \<and>
         j_agents (job e) = map completedRun before @ [failedRun agent s] \<and>
         r_id (last (j_agents (job e))) = a_id agent \<and>
         r_status (last (j_agents (job e))) = ''failed'' \<and>
         sink e = jobStartEvent jobId now # planEvent (planAgents t)
                    # concat (map agentEvents before) @ agentStartEvent agent
                    # map (progressEvent agent) [1..<s]
                    @ [(''job-error'',
                        JObj [(''message'', JStr (a_name agent @ '' encountered an error at step ''
                                                    @ showNat s)),
                              (''agentId'', JStr (a_id agent))])] \<and>
         countEvents ''job-error'' (sink e) = 1 \<and>
         countEvents ''job-complete'' (sink e) = 0 \<and>
         countEvents ''agent-complete'' (sink e) = length before \<and>
         (\<forall>b \<in> set after. \<forall>ev \<in> set (sink e). \<not> aboutAgent (a_id b) ev) \<and>
         ended e \<and> drawn e = totalSteps before + s"
    unfolding Let_def
    using later f(3) f(4) cnt
    by (simp add: f(1) f(2) newJob_def countEvents_agentEvents countEvents_progress
        jobErrorEvent_def errorMessage_def)
next
  assume u: "unit_draws rnd"
  obtain a rest where plan: "planAgents t = [] @ a # rest" and s: "1 \<le> (1::nat)" "1 \<le> a_steps a"
    using planAgents_head [of t] by auto
  have nf: "noFailure (Fin 1) rnd 0 (totalSteps [] + (1 - 1))" by simp
  have bad: "js_less (rnd (totalSteps [] + (1 - 1))) (Fin 1)"
    using u by (rule unit_draws_failure_1)
  note f = executeJob_fails [OF plan s nf bad, of jobId now]
  show "let e = executeJob jobId t (Fin 1) now rnd; first = hd (planAgents t) in
         sink e = [jobStartEvent jobId now, planEvent (planAgents t), agentStartEvent first,
                   jobErrorEvent first 1] \<and>
         countEvents ''job-error'' (sink e) = 1 \<and>
         countEvents ''job-complete'' (sink e) = 0 \<and>
         countEvents ''agent-complete'' (sink e) = 0 \<and>
         j_status (job e) = ''error'' \<and> j_agents (job e) = [failedRun first 1]"
    unfolding Let_def f(1) f(2) using plan by (simp add: newJob_def)
qed


theorem failure_ends_job_witness:
  "(planAgents ''hello'' = [baseAgents ! 0] @ baseAgents ! 1 # drop 2 baseAgents \<and>
    (1::nat) \<le> 2 \<and> 2 \<le> a_steps (baseAgents ! 1) \<and>
    noFailure (Fin (1/2)) (\<lambda>k. if k = 2 then 1/4 else 3/4) 0 (totalSteps [baseAgents ! 0] + (2 - 1)) \<and>
    js_less ((\<lambda>k. if k = 2 then 1/4 else 3/4) (totalSteps [baseAgents ! 0] + (2 - 1))) (Fin (1/2))) \<and>
   unit_draws (\<lambda>k. if k = 2 then 1/4 else 3/4) \<and>
   j_status (job (executeJob ''j1'' ''hello'' (Fin (1/2)) 7 (\<lambda>k. if k = 2 then 1/4 else 3/4)))
     = ''error'' \<and>
   map fst (sink (executeJob ''j1'' ''hello'' (Fin (1/2)) 7 (\<lambda>k. if k = 2 then 1/4 else 3/4)))
     = [''job-start'', ''plan'', ''agent-start'', ''agent-progress'', ''agent-complete'',
        ''agent-start'', ''agent-progress'', ''job-error''] \<and>
   map fst (sink (executeJob ''j1'' ''hello'' (Fin 1) 7 (\<lambda>k. if k = 2 then 1/4 else 3/4)))
     = [''job-start'', ''plan'', ''agent-start'', ''job-error'']"
proof -
  let ?rnd = "\<lambda>k::nat. if k = 2 then 1/4 else (3/4 :: rat)"
  have h1: "planAgents ''hello'' = [baseAgents ! 0] @ baseAgents ! 1 # drop 2 baseAgents \<and>
    (1::nat) \<le> 2 \<and> 2 \<le> a_steps (baseAgents ! 1) \<and>
    noFailure (Fin (1/2)) ?rnd 0 (totalSteps [baseAgents ! 0] + (2 - 1)) \<and>
    js_less (?rnd (totalSteps [baseAgents ! 0] + (2 - 1))) (Fin (1/2))"
    by (simp add: planAgents_def toLowerCase_def lowerChar_def startsWith_def baseAgents_def
        mkAgent_def noFailure_def less_Suc_eq)
  have h2: "unit_draws ?rnd" by (simp add: unit_draws_def)
  note T = failure_ends_job [of "''hello''" "[baseAgents ! 0]" "baseAgents ! 1" "drop 2 baseAgents"
      2 "Fin (1/2)" ?rnd "''j1''" 7]
  from T h1 have a: "j_status (job (executeJob ''j1'' ''hello'' (Fin (1/2)) 7 ?rnd)) = ''error''"
    and b: "sink (executeJob ''j1'' ''hello'' (Fin (1/2)) 7 ?rnd) =
       jobStartEvent ''j1'' 7 # planEvent (planAgents ''hello'')
         # concat (map agentEvents [baseAgents ! 0]) @ agentStartEvent (baseAgents ! 1)
         # map (progressEvent (baseAgents ! 1)) [1..<2]
         @ [(''job-error'',
             JObj [(''message'', JStr (a_name (baseAgents ! 1) @ '' encountered an error at step ''
                                         @ showNat 2)),
                   (''agentId'', JStr (a_id (baseAgents ! 1)))])]"
    unfolding Let_def by blast+
  from T h2 have c: "sink (executeJob ''j1'' ''hello'' (Fin 1) 7 ?rnd) =
       [jobStartEvent ''j1'' 7, planEvent (planAgents ''hello''),
        agentStartEvent (hd (planAgents ''hello'')), jobErrorEvent (hd (planAgents ''hello'')) 1]"
    unfolding Let_def by blast
  have up: "[Suc 0..<2] = [1]" by code_simp
  show ?thesis
    using h1 h2 a unfolding b c
    by (simp add: agentEvents_def baseAgents_def mkAgent_def up)
qed

subsection \<open>States at the suspension points\<close>

lemma roundPercent_less: "k < n \<Longrightarrow> n < 200 \<Longrightarrow> roundPercent k n < 100"
  by (simp add: roundPercent_def div_less_iff_less_mult)

lemma runAfter_fields [simp]:
  "r_status (runAfter a k) = ''running''"
  "r_progress (runAfter a k) = (if k = 0 then 0 else roundPercent k (a_steps a))"
  "r_logs (runAfter a k) = map (logLine a) [1..<Suc k]"
  by (simp_all add: runAfter_def newRun_def)

lemma steady_at_await:
  assumes "j_status j = ''running''" "j_agents j = done @ [runAfter agent k]"
    "\<forall>r \<in> set done. r_status r = ''completed''" "k < a_steps agent" "a_steps agent < 200"
  shows "steady j"
proof -
  have "roundPercent k (a_steps agent) \<noteq> 100"
    using roundPercent_less [OF assms(4,5)] by simp
  with assms show ?thesis by (auto simp: steady_def)
qed

lemma stepLoop_states:
  "step + m = Suc (a_steps agent) \<Longrightarrow> 1 \<le> step \<Longrightarrow> a_steps agent < 200 \<Longrightarrow>
   \<forall>j \<in> set (seen st). steady j \<Longrightarrow> j_status (job st) = ''running'' \<Longrightarrow>
   j_agents (job st) = done @ [runAfter agent (step - 1)] \<Longrightarrow>
   \<forall>r \<in> set done. r_status r = ''completed'' \<Longrightarrow>
   (case stepLoop agent p rnd step st of
      Next st' \<Rightarrow>
        (\<forall>j \<in> set (seen st'). steady j) \<and> j_status (job st') = ''running'' \<and>
        j_agents (job st') = done @ [runAfter agent (a_steps agent)] \<and> ended st' = ended st
    | Return st' \<Rightarrow>
        (\<forall>j \<in> set (seen st'). steady j) \<and> seen st' \<noteq> [] \<and>
        job st' = failJob (last (seen st')) \<and> ended st')"
proof (induction m arbitrary: step st)
  case 0
  then have "step = Suc (a_steps agent)" by simp
  with 0 show ?case by (simp add: stepLoop_done)
next
  case (Suc m)
  then have le: "step \<le> a_steps agent" by simp
  then have "step - 1 < a_steps agent" using Suc.prems(2) by simp
  from steady_at_await [OF Suc.prems(5,6,7) this Suc.prems(3)]
  have now: "steady (job st)" .
  show ?case
  proof (cases "js_less (rnd (drawn st)) p")
    case True
    with le now Suc.prems(4) show ?thesis
      by (simp add: stepLoop_fail failStep_job failJob_def)
  next
    case False
    have ag: "j_agents (job (okStep agent step st)) = done @ [runAfter agent (Suc step - 1)]"
      using Suc.prems runAfter_step [of step agent] by (simp add: okStep_job)
    have "Suc step + m = Suc (a_steps agent)" "1 \<le> Suc step" "a_steps agent < 200"
      using Suc.prems by simp_all
    moreover have "\<forall>j \<in> set (seen (okStep agent step st)). steady j"
      using now Suc.prems(4) by simp
    moreover have "j_status (job (okStep agent step st)) = ''running''"
      using Suc.prems(5) by (simp add: okStep_job)
    ultimately have "case stepLoop agent p rnd (Suc step) (okStep agent step st) of
      Next st' \<Rightarrow>
        (\<forall>j \<in> set (seen st'). steady j) \<and> j_status (job st') = ''running'' \<and>
        j_agents (job st') = done @ [runAfter agent (a_steps agent)] \<and>
        ended st' = ended (okStep agent step st)
    | Return st' \<Rightarrow>
        (\<forall>j \<in> set (seen st'). steady j) \<and> seen st' \<noteq> [] \<and>
        job st' = failJob (last (seen st')) \<and> ended st'"
      using ag Suc.prems(7) by (rule Suc.IH)
    with le False show ?thesis
      by (simp add: stepLoop_ok split: flow.splits)
  qed
qed

lemma agentLoop_states:
  "\<forall>a \<in> set agents. a_steps a < 200 \<Longrightarrow>
   \<forall>j \<in> set (seen st). steady j \<Longrightarrow> j_status (job st) = ''running'' \<Longrightarrow>
   \<forall>r \<in> set (j_agents (job st)). r_status r = ''completed'' \<Longrightarrow>
   (case agentLoop agents p rnd st of
      Next st' \<Rightarrow>
        (\<forall>j \<in> set (seen st'). steady j) \<and> j_status (job st') = ''running'' \<and>
        (\<forall>r \<in> set (j_agents (job st')). r_status r = ''completed'') \<and> ended st' = ended st
    | Return st' \<Rightarrow>
        (\<forall>j \<in> set (seen st'). steady j) \<and> seen st' \<noteq> [] \<and>
        job st' = failJob (last (seen st')) \<and> ended st')"
proof (induction agents arbitrary: st)
  case Nil
  then show ?case by simp
next
  case (Cons agent agents)
  let ?st1 = "startAgent agent st"
  have "1 + a_steps agent = Suc (a_steps agent)" "1 \<le> (1::nat)" "a_steps agent < 200"
    "\<forall>j \<in> set (seen ?st1). steady j" "j_status (job ?st1) = ''running''"
    "j_agents (job ?st1) = j_agents (job st) @ [runAfter agent (1 - 1)]"
    using Cons.prems by (simp_all add: startAgent_def)
  from stepLoop_states [OF this Cons.prems(4), where p = p and rnd = rnd]
  have inner: "case stepLoop agent p rnd 1 ?st1 of
      Next st' \<Rightarrow>
        (\<forall>j \<in> set (seen st'). steady j) \<and> j_status (job st') = ''running'' \<and>
        j_agents (job st') = j_agents (job st) @ [runAfter agent (a_steps agent)] \<and>
        ended st' = ended ?st1
    | Return st' \<Rightarrow>
        (\<forall>j \<in> set (seen st'). steady j) \<and> seen st' \<noteq> [] \<and>
        job st' = failJob (last (seen st')) \<and> ended st'" .
  show ?case
  proof (cases "stepLoop agent p rnd 1 ?st1")
    case (Return st')
    with inner show ?thesis by (simp add: agentLoop_Cons del: agentLoop.simps(2))
  next
    case (Next st')
    let ?st2 = "finishAgent agent st'"
    from Next inner Cons.prems have
      "\<forall>a \<in> set agents. a_steps a < 200"
      "\<forall>j \<in> set (seen ?st2). steady j" "j_status (job ?st2) = ''running''"
      "\<forall>r \<in> set (j_agents (job ?st2)). r_status r = ''completed''"
      by (simp_all add: finishAgent_def)
    from Cons.IH [OF this] Next inner show ?thesis
      by (simp add: agentLoop_Cons finishAgent_def startAgent_def del: agentLoop.simps(2)
          split: flow.splits)
  qed
qed

lemma executeJob_states:
  "(\<forall>j \<in> set (seen (executeJob jobId t p now rnd)). steady j) \<and>
   ended (executeJob jobId t p now rnd) \<and>
   (j_status (job (executeJob jobId t p now rnd)) = ''completed'' \<and>
      (\<forall>r \<in> set (j_agents (job (executeJob jobId t p now rnd))). r_status r = ''completed'')
    \<or>
    seen (executeJob jobId t p now rnd) \<noteq> [] \<and>
      job (executeJob jobId t p now rnd) = failJob (last (seen (executeJob jobId t p now rnd))))"
proof -
  let ?st0 = "(newExec (newJob jobId now))\<lparr>sink := [jobStartEvent jobId now, planEvent (planAgents t)]\<rparr>"
  have "\<forall>a \<in> set (planAgents t). a_steps a < 200"
    using planAgents_steps by fastforce
  moreover have "\<forall>j \<in> set (seen ?st0). steady j" "j_status (job ?st0) = ''running''"
    "\<forall>r \<in> set (j_agents (job ?st0)). r_status r = ''completed''"
    by (simp_all add: newExec_def newJob_def)
  ultimately have "case agentLoop (planAgents t) p rnd ?st0 of
      Next st' \<Rightarrow>
        (\<forall>j \<in> set (seen st'). steady j) \<and> j_status (job st') = ''running'' \<and>
        (\<forall>r \<in> set (j_agents (job st')). r_status r = ''completed'') \<and> ended st' = ended ?st0
    | Return st' \<Rightarrow>
        (\<forall>j \<in> set (seen st'). steady j) \<and> seen st' \<noteq> [] \<and>
        job st' = failJob (last (seen st')) \<and> ended st'"
    by (rule agentLoop_states)
  then show ?thesis
    by (cases "agentLoop (planAgents t) p rnd ?st0") (simp_all add: executeJob_unfold)
qed


lemma map_updLast: "(\<And>x. g (f x) = g x) \<Longrightarrow> map g (updLast f xs) = map g xs"
  by (cases xs rule: rev_cases) simp_all

lemma set_updLast: "xs \<noteq> [] \<Longrightarrow> set (updLast f xs) \<subseteq> insert (f (last xs)) (set xs)"
  by (cases xs rule: rev_cases) auto

lemma failJob_runs:
  assumes "steady j" "r \<in> set (j_agents (failJob j))" "r_progress r = 100"
  shows "r_status r = ''completed''"
proof -
  from assms(1) have ne: "j_agents j \<noteq> []" by (simp add: steady_def)
  from assms(2) set_updLast [OF ne]
  have "r = (last (j_agents j))\<lparr>r_status := ''failed''\<rparr> \<or> r \<in> set (j_agents j)"
    by (auto simp: failJob_def)
  then show ?thesis
  proof
    assume r: "r = (last (j_agents j))\<lparr>r_status := ''failed''\<rparr>"
    have "last (j_agents j) \<in> set (j_agents j)" using ne by simp
    with assms(1) have "r_progress (last (j_agents j)) \<noteq> 100"
      unfolding steady_def by fastforce
    with r assms(3) show ?thesis by simp
  next
    assume "r \<in> set (j_agents j)"
    with assms(1,3) show ?thesis by (simp add: steady_def)
  qed
qed

lemma call_states_progress:
  "let e = executeJob jobId t p now rnd in
     (\<forall>j \<in> set (seen e @ [job e]). \<forall>r \<in> set (j_agents j).
         r_progress r = 100 \<longrightarrow> r_status r = ''completed'') \<and>
     (\<forall>j \<in> set (seen e). \<forall>r \<in> set (j_agents j). r_status r \<noteq> ''failed'') \<and>
     ((\<exists>r \<in> set (j_agents (job e)). r_status r = ''failed'') \<longrightarrow>
        ended e \<and> seen e \<noteq> [] \<and>
        map r_progress (j_agents (job e)) = map r_progress (j_agents (last (seen e))) \<and>
        map r_logs (j_agents (job e)) = map r_logs (j_agents (last (seen e))))"
proof -
  let ?e = "executeJob jobId t p now rnd"
  note st = executeJob_states [of jobId t p now rnd]
  from st have seen: "\<forall>j \<in> set (seen ?e). steady j" and ended: "ended ?e" by simp_all
  from st consider
      (all_completed) "\<forall>r \<in> set (j_agents (job ?e)). r_status r = ''completed''"
    | (one_failed) "seen ?e \<noteq> []" "job ?e = failJob (last (seen ?e))"
    by blast
  then have fin: "(\<forall>r \<in> set (j_agents (job ?e)). r_progress r = 100 \<longrightarrow> r_status r = ''completed'') \<and>
     ((\<exists>r \<in> set (j_agents (job ?e)). r_status r = ''failed'') \<longrightarrow>
        seen ?e \<noteq> [] \<and>
        map r_progress (j_agents (job ?e)) = map r_progress (j_agents (last (seen ?e))) \<and>
        map r_logs (j_agents (job ?e)) = map r_logs (j_agents (last (seen ?e))))"
  proof cases
    case all_completed
    then show ?thesis by auto
  next
    case one_failed
    from one_failed(1) seen have "steady (last (seen ?e))" by simp
    then have "\<forall>r \<in> set (j_agents (job ?e)). r_progress r = 100 \<longrightarrow> r_status r = ''completed''"
      unfolding one_failed(2) by (blast intro: failJob_runs)
    moreover have "map r_progress (j_agents (job ?e)) = map r_progress (j_agents (last (seen ?e)))"
      "map r_logs (j_agents (job ?e)) = map r_logs (j_agents (last (seen ?e)))"
      unfolding one_failed(2) by (simp_all add: failJob_def map_updLast)
    ultimately show ?thesis using one_failed(1) by blast
  qed
  from seen have "\<forall>j \<in> set (seen ?e). \<forall>r \<in> set (j_agents j).
      r_status r \<noteq> ''failed'' \<and> (r_progress r = 100 \<longrightarrow> r_status r = ''completed'')"
    by (simp add: steady_def)
  with fin ended show ?thesis
    unfolding Let_def by auto
qed


subsection \<open>Keyword rules of the planner\<close>

text \<open>
  Claim C5. With the request text folded to lower case: if it contains \<^verbatim>\<open>code\<close> or \<^verbatim>\<open>api\<close>,
  the plan holds the implementation stage (the engineer) directly after the research
  stage, which follows the breakdown stage; if it contains \<^verbatim>\<open>financial\<close> or \<^verbatim>\<open>quarter\<close>,
  the finance stage is first and the breakdown stage second; and if both hold, the plan
  is finance, breakdown, research, engineer, analysis, visualization, composition: the
  engineer still comes directly after the second baseline stage.
\<close>

theorem planner_keyword_stages:
  "let lower = toLowerCase t;
       impl = (str_includes lower ''code'' \<or> str_includes lower ''api'');
       fin = (str_includes lower ''financial'' \<or> str_includes lower ''quarter'');
       plan = planAgents t
   in (impl \<longrightarrow> (\<exists>k. 2 \<le> k \<and> k < length plan \<and> plan ! k = engineer \<and>
                      plan ! (k - 1) = baseAgents ! 1 \<and> plan ! (k - 2) = baseAgents ! 0 \<and>
                      plan ! (k + 1) = baseAgents ! 2)) \<and>
      (fin \<longrightarrow> plan ! 0 = finance \<and> plan ! 1 = baseAgents ! 0) \<and>
      (impl \<and> fin \<longrightarrow>
         plan = [finance, baseAgents ! 0, baseAgents ! 1, engineer,
                 baseAgents ! 2, baseAgents ! 3, baseAgents ! 4]) \<and>
      (impl \<and> \<not> fin \<longrightarrow>
         plan = [baseAgents ! 0, baseAgents ! 1, engineer,
                 baseAgents ! 2, baseAgents ! 3, baseAgents ! 4])"
proof -
  define impl where
    "impl = (str_includes (toLowerCase t) ''code'' \<or> str_includes (toLowerCase t) ''api'')"
  define fin where
    "fin = (str_includes (toLowerCase t) ''financial'' \<or> str_includes (toLowerCase t) ''quarter'')"
  have plan: "planAgents t =
      (if fin then [finance] else []) @ [baseAgents ! 0, baseAgents ! 1]
        @ (if impl then [engineer] else []) @ [baseAgents ! 2, baseAgents ! 3, baseAgents ! 4]"
    by (simp add: planAgents_def Let_def splice0_def unshift_def baseAgents_def impl_def fin_def)
  have a: "impl \<longrightarrow> (\<exists>k. 2 \<le> k \<and> k < length (planAgents t) \<and> planAgents t ! k = engineer \<and>
                      planAgents t ! (k - 1) = baseAgents ! 1 \<and>
                      planAgents t ! (k - 2) = baseAgents ! 0 \<and>
                      planAgents t ! (k + 1) = baseAgents ! 2)"
  proof
    assume impl
    show "\<exists>k. 2 \<le> k \<and> k < length (planAgents t) \<and> planAgents t ! k = engineer \<and>
                      planAgents t ! (k - 1) = baseAgents ! 1 \<and>
                      planAgents t ! (k - 2) = baseAgents ! 0 \<and>
                      planAgents t ! (k + 1) = baseAgents ! 2"
    proof (cases fin)
      case True
      with \<open>impl\<close> show ?thesis by (intro exI [of _ 3]) (simp add: plan)
    next
      case False
      with \<open>impl\<close> show ?thesis by (intro exI [of _ 2]) (simp add: plan)
    qed
  qed
  have b: "fin \<longrightarrow> planAgents t ! 0 = finance \<and> planAgents t ! 1 = baseAgents ! 0"
    by (simp add: plan)
  have c: "impl \<and> fin \<longrightarrow>
         planAgents t = [finance, baseAgents ! 0, baseAgents ! 1, engineer,
                 baseAgents ! 2, baseAgents ! 3, baseAgents ! 4]"
    "impl \<and> \<not> fin \<longrightarrow>
         planAgents t = [baseAgents ! 0, baseAgents ! 1, engineer,
                 baseAgents ! 2, baseAgents ! 3, baseAgents ! 4]"
    by (simp_all add: plan)
  from a b c show ?thesis
    unfolding Let_def impl_def fin_def by blast
qed

theorem planner_keyword_stages_witness:
  "(str_includes (toLowerCase ''Quarterly API code'') ''code'' \<or>
    str_includes (toLowerCase ''Quarterly API code'') ''api'') \<and>
   (str_includes (toLowerCase ''Quarterly API code'') ''financial'' \<or>
    str_includes (toLowerCase ''Quarterly API code'') ''quarter'') \<and>
   map a_id (planAgents ''Quarterly API code'') =
     [''finance'', ''planner'', ''researcher'', ''engineer'', ''analyst'', ''visualizer'',
      ''editor'']"
proof -
  have h: "str_includes (toLowerCase ''Quarterly API code'') ''code'' \<or>
           str_includes (toLowerCase ''Quarterly API code'') ''api''"
     "str_includes (toLowerCase ''Quarterly API code'') ''financial'' \<or>
      str_includes (toLowerCase ''Quarterly API code'') ''quarter''"
    by (simp_all add: toLowerCase_def lowerChar_def startsWith_def)
  from planner_keyword_stages [of "''Quarterly API code''"] h
  have "planAgents ''Quarterly API code'' =
          [finance, baseAgents ! 0, baseAgents ! 1, engineer,
           baseAgents ! 2, baseAgents ! 3, baseAgents ! 4]"
    unfolding Let_def by blast
  with h show ?thesis
    by (simp add: baseAgents_def finance_def engineer_def mkAgent_def)
qed

subsection \<open>The failure rate of the stream handler\<close>

lemma clamp_range:
  "Math_max (Fin 0) (Math_min (Fin 1) n) = NaN \<and> n = NaN \<or>
   (\<exists>r. Math_max (Fin 0) (Math_min (Fin 1) n) = Fin r \<and> 0 \<le> r \<and> r \<le> 1 \<and> n \<noteq> NaN)"
  by (cases n) (auto simp: max_def min_def)

lemma streamFailRate_range:
  "streamFailRate v = NaN \<or> (\<exists>r. streamFailRate v = Fin r \<and> 0 \<le> r \<and> r \<le> 1)"
proof (cases v)
  case (QString x)
  then show ?thesis
    using clamp_range [of "Number x"] by (auto simp: streamFailRate_def)
qed (simp_all add: streamFailRate_def)

lemma streamFailRate_NaN:
  "streamFailRate v = NaN \<longleftrightarrow> (\<exists>x. v = QString x \<and> Number x = NaN)"
proof (cases v)
  case (QString x)
  then show ?thesis
    using clamp_range [of "Number x"] by (auto simp: streamFailRate_def)
qed (simp_all add: streamFailRate_def)

lemma noFailure_NaN: "noFailure NaN rnd d m"
  by (simp add: noFailure_def)

text \<open>
  Claim C9, at the input where the code departs from it. For the override \<^verbatim>\<open>abc\<close>, which
  is no numeric literal, \<^verbatim>\<open>Number\<close> gives NaN, and both \<^verbatim>\<open>Math.min\<close> and \<^verbatim>\<open>Math.max\<close> hand
  NaN on: the failure rate passed to the engine is NaN, not a number of the interval
  from 0 to 1.
\<close>

theorem stream_fail_rate_not_clamped:
  "streamFailRate (QString ''abc'') = NaN"
  by code_simp

subsection \<open>Submission\<close>

lemma submit_cases:
  "submit nanoid body s =
     (if \<exists>kvs x. body = Some (JObj kvs) \<and> map_of kvs ''request'' = Some (JStr x) \<and> x \<noteq> []
      then (Status200 (JObj [(''jobId'', JStr (nanoid (issued s)))]), s\<lparr>issued := Suc (issued s)\<rparr>)
      else (Status400 (JObj [(''error'', JStr ''Missing request string'')]), s))"
proof (cases body)
  case None
  then show ?thesis by (simp add: submit_def)
next
  case (Some b)
  show ?thesis
  proof (cases b)
    case (JObj kvs)
    show ?thesis
    proof (cases "map_of kvs ''request''")
      case None
      with Some JObj show ?thesis by (simp add: submit_def)
    next
      case (Some v)
      with \<open>body = Some b\<close> JObj show ?thesis
        by (cases v) (simp_all add: submit_def)
    qed
  qed (simp_all add: Some submit_def)
qed

lemma sampleIds_inj: "inj sampleIds"
  by (rule injI) (simp add: sampleIds_def)

lemma issued_stream: "issued (snd (stream jobId q failRate now rnd s)) = issued s"
  by (simp add: stream_def startCall_def Let_def split: option.splits)

lemma issued_resume: "issued (resume k s) = issued s"
  by (simp add: resume_def split: prod.splits list.splits)

lemma allocated_run:
  "allocated nanoid acts s = map nanoid [issued s..<issued (run nanoid acts s)] \<and>
   issued s \<le> issued (run nanoid acts s)"
proof (induction acts arbitrary: s)
  case Nil
  then show ?case by simp
next
  case (Cons act acts)
  show ?case
  proof (cases act)
    case (Submit body)
    show ?thesis
    proof (cases "\<exists>kvs x. body = Some (JObj kvs) \<and> map_of kvs ''request'' = Some (JStr x) \<and> x \<noteq> []")
      case True
      then have sub: "submit nanoid body s =
          (Status200 (JObj [(''jobId'', JStr (nanoid (issued s)))]), s\<lparr>issued := Suc (issued s)\<rparr>)"
        by (simp only: submit_cases if_True)
      from Cons.IH [of "s\<lparr>issued := Suc (issued s)\<rparr>"]
      have ih: "allocated nanoid acts (s\<lparr>issued := Suc (issued s)\<rparr>) =
            map nanoid [Suc (issued s)..<issued (run nanoid acts (s\<lparr>issued := Suc (issued s)\<rparr>))]"
        and le: "Suc (issued s) \<le> issued (run nanoid acts (s\<lparr>issued := Suc (issued s)\<rparr>))"
        by simp_all
      from le have "[issued s..<issued (run nanoid acts (s\<lparr>issued := Suc (issued s)\<rparr>))] =
          issued s # [Suc (issued s)..<issued (run nanoid acts (s\<lparr>issued := Suc (issued s)\<rparr>))]"
        by (simp add: upt_conv_Cons)
      with ih le Submit sub show ?thesis by simp
    next
      case False
      then have sub: "submit nanoid body s =
          (Status400 (JObj [(''error'', JStr ''Missing request string'')]), s)"
        by (simp only: submit_cases if_False)
      with Cons.IH [of s] Submit show ?thesis by simp
    qed
  next
    case (Stream jobId q failRate now rnd)
    with Cons.IH [of "snd (stream jobId q failRate now rnd s)"] show ?thesis
      by (simp add: issued_stream)
  next
    case (Resume k)
    with Cons.IH [of "resume k s"] show ?thesis
      by (simp add: issued_resume)
  qed
qed

lemma jobIdOf_submit:
  "i \<in> set (jobIdOf (fst (submit nanoid body s))) \<Longrightarrow> i = nanoid (issued s)"
  by (auto simp: submit_cases split: if_splits)

text \<open>
  Claim C8, as amended. The submission handler answers with the validation error unless
  the body is an object whose \<^verbatim>\<open>request\<close> property is a non-empty string: the error is
  returned when the property is absent, when it is no string, and also when it is the
  empty string. Otherwise it allocates a new identity with \<^verbatim>\<open>nanoid()\<close> and returns it. The
  identity is fresh and unique: \<^verbatim>\<open>nanoid\<close> never gives a value twice, each successful
  submission takes the next value and no other request takes one, so the identities that
  the submissions of any sequence of requests return are pairwise distinct, and a
  submission after them returns none of these. In both cases no call of the engine is
  started and the job store is not changed.
\<close>

theorem submit_validates_and_allocates:
  "(fst (submit nanoid body s) = Status400 (JObj [(''error'', JStr ''Missing request string'')])
      \<longleftrightarrow> \<not> (\<exists>kvs x. body = Some (JObj kvs) \<and> map_of kvs ''request'' = Some (JStr x) \<and> x \<noteq> [])) \<and>
   (fst (submit nanoid body s) \<noteq> Status400 (JObj [(''error'', JStr ''Missing request string'')])
      \<longrightarrow> fst (submit nanoid body s) = Status200 (JObj [(''jobId'', JStr (nanoid (issued s)))]) \<and>
          jobIdOf (fst (submit nanoid body s)) = [nanoid (issued s)] \<and>
          issued (snd (submit nanoid body s)) = Suc (issued s)) \<and>
   (inj nanoid \<longrightarrow>
      distinct (allocated nanoid acts init) \<and>
      (\<forall>i \<in> set (jobIdOf (fst (submit nanoid body (run nanoid acts init)))).
          i \<notin> set (allocated nanoid acts init))) \<and>
   jobs (snd (submit nanoid body s)) = jobs s \<and>
   heap (snd (submit nanoid body s)) = heap s \<and>
   calls (snd (submit nanoid body s)) = calls s"
proof -
  have fresh: "inj nanoid \<longrightarrow>
      distinct (allocated nanoid acts init) \<and>
      (\<forall>i \<in> set (jobIdOf (fst (submit nanoid body (run nanoid acts init)))).
          i \<notin> set (allocated nanoid acts init))"
  proof
    assume inj: "inj nanoid"
    have al: "allocated nanoid acts init = map nanoid [issued init..<issued (run nanoid acts init)]"
      using allocated_run [of nanoid acts init] by simp
    have d: "distinct (allocated nanoid acts init)"
      unfolding al using inj by (simp add: distinct_map inj_on_def inj_def)
    have "\<forall>i \<in> set (jobIdOf (fst (submit nanoid body (run nanoid acts init)))).
          i \<notin> set (allocated nanoid acts init)"
    proof
      fix i assume "i \<in> set (jobIdOf (fst (submit nanoid body (run nanoid acts init))))"
      then have "i = nanoid (issued (run nanoid acts init))" by (rule jobIdOf_submit)
      then show "i \<notin> set (allocated nanoid acts init)"
        unfolding al using inj by (auto dest: injD)
    qed
    with d show "distinct (allocated nanoid acts init) \<and>
      (\<forall>i \<in> set (jobIdOf (fst (submit nanoid body (run nanoid acts init)))).
          i \<notin> set (allocated nanoid acts init))"
      by simp
  qed
  have rest: "(fst (submit nanoid body s) = Status400 (JObj [(''error'', JStr ''Missing request string'')])
      \<longleftrightarrow> \<not> (\<exists>kvs x. body = Some (JObj kvs) \<and> map_of kvs ''request'' = Some (JStr x) \<and> x \<noteq> [])) \<and>
   (fst (submit nanoid body s) \<noteq> Status400 (JObj [(''error'', JStr ''Missing request string'')])
      \<longrightarrow> fst (submit nanoid body s) = Status200 (JObj [(''jobId'', JStr (nanoid (issued s)))]) \<and>
          jobIdOf (fst (submit nanoid body s)) = [nanoid (issued s)] \<and>
          issued (snd (submit nanoid body s)) = Suc (issued s)) \<and>
   jobs (snd (submit nanoid body s)) = jobs s \<and>
   heap (snd (submit nanoid body s)) = heap s \<and>
   calls (snd (submit nanoid body s)) = calls s"
    by (auto simp: submit_cases)
  from fresh rest show ?thesis by blast
qed

theorem submit_validates_and_allocates_witness:
  "fst (submit sampleIds (Some (JObj [(''request'', JStr ''Draft API integration plan'')]))
         (run sampleIds [Submit (Some (JObj [(''request'', JStr ''first'')])),
                         Submit (Some (JObj [(''request'', JStr '''')])),
                         Submit (Some (JObj [(''request'', JStr ''second'')]))] init))
     \<noteq> Status400 (JObj [(''error'', JStr ''Missing request string'')]) \<and>
   inj sampleIds \<and>
   allocated sampleIds [Submit (Some (JObj [(''request'', JStr ''first'')])),
                        Submit (Some (JObj [(''request'', JStr '''')])),
                        Submit (Some (JObj [(''request'', JStr ''second'')]))] init = [''a'', ''aa''] \<and>
   fst (submit sampleIds (Some (JObj [(''request'', JStr ''Draft API integration plan'')]))
         (run sampleIds [Submit (Some (JObj [(''request'', JStr ''first'')])),
                         Submit (Some (JObj [(''request'', JStr '''')])),
                         Submit (Some (JObj [(''request'', JStr ''second'')]))] init))
     = Status200 (JObj [(''jobId'', JStr ''aaa'')]) \<and>
   ''aaa'' \<notin> set [''a'', ''aa'']"
proof -
  let ?body = "Some (JObj [(''request'', JStr ''Draft API integration plan'')])"
  let ?acts = "[Submit (Some (JObj [(''request'', JStr ''first'')])),
                Submit (Some (JObj [(''request'', JStr '''')])),
                Submit (Some (JObj [(''request'', JStr ''second'')]))]"
  let ?s = "run sampleIds ?acts init"
  have s: "?s = init\<lparr>issued := 2\<rparr>"
    by (simp add: submit_def init_def)
  have al: "allocated sampleIds ?acts init = [''a'', ''aa'']"
    by (simp add: submit_def init_def sampleIds_def)
  have ok: "fst (submit sampleIds ?body ?s)
      \<noteq> Status400 (JObj [(''error'', JStr ''Missing request string'')])"
    by (simp add: submit_def)
  note T = submit_validates_and_allocates [of sampleIds ?body ?s ?acts]
  from T ok
  have r: "fst (submit sampleIds ?body ?s) = Status200 (JObj [(''jobId'', JStr (sampleIds (issued ?s)))])"
    "jobIdOf (fst (submit sampleIds ?body ?s)) = [sampleIds (issued ?s)]"
    by blast+
  from T sampleIds_inj
  have "\<forall>i \<in> set (jobIdOf (fst (submit sampleIds ?body ?s))). i \<notin> set (allocated sampleIds ?acts init)"
    by blast
  with r(2) have "sampleIds (issued ?s) \<notin> set (allocated sampleIds ?acts init)"
    by simp
  then have "''aaa'' \<notin> set [''a'', ''aa'']"
    unfolding al s by (simp add: sampleIds_def numeral_2_eq_2)
  with ok sampleIds_inj al r(1) show ?thesis
    unfolding s by (simp add: sampleIds_def numeral_2_eq_2)
qed

text \<open>
  Claim C8 as stated fails for the body \<^verbatim>\<open>{"request": ""}\<close>: the field is there and it is
  a string, and the handler answers with the validation error.
\<close>

theorem submit_rejects_empty_string:
  "getProp (JObj [(''request'', JStr '''')]) ''request'' = Some (JStr '''') \<and>
   typeof (getProp (JObj [(''request'', JStr '''')]) ''request'') = ''string'' \<and>
   fst (submit sampleIds (Some (JObj [(''request'', JStr '''')])) init)
     = Status400 (JObj [(''error'', JStr ''Missing request string'')])"
  by (simp add: submit_def)

subsection \<open>The state of the server\<close>

lemma steady_running: "steady j \<Longrightarrow> j_status j = ''running''"
  by (simp add: steady_def)

lemma executeJob_final_status:
  "j_status (job (executeJob jobId t p now rnd)) = ''completed'' \<or>
   j_status (job (executeJob jobId t p now rnd)) = ''error''"
  using executeJob_states [of jobId t p now rnd] by (auto simp: failJob_def)

lemma executeJob_seen_running:
  "j \<in> set (seen (executeJob jobId t p now rnd)) \<Longrightarrow> j_status j = ''running''"
  using executeJob_states [of jobId t p now rnd] by (auto dest: steady_running)

lemma steady_known: "steady j \<Longrightarrow> known j"
  by (simp add: steady_def known_def)

lemma pending_ok_trace:
  assumes "\<forall>j \<in> set xs. steady j" "j_status y = ''completed'' \<or> j_status y = ''error''"
  shows "pending_ok (hd (xs @ [y])) (tl (xs @ [y]))" and "known (hd (xs @ [y]))"
proof -
  from assms(2) have y: "known y" by (auto simp: known_def)
  from assms(1) have xs: "\<forall>j \<in> set xs. known j \<and> j_status j = ''running''"
    by (simp add: steady_known steady_running)
  show "pending_ok (hd (xs @ [y])) (tl (xs @ [y]))"
    using xs y by (cases xs) (auto simp: pending_ok_def)
  show "known (hd (xs @ [y]))"
    using xs y by (cases xs) auto
qed

lemma pending_ok_next: "pending_ok cur (j # js) \<Longrightarrow> pending_ok j js"
  by (cases js) (auto simp: pending_ok_def)

lemma pending_ok_known: "pending_ok cur (j # js) \<Longrightarrow> known j"
  by (simp add: pending_ok_def)

lemma server_ok_init: "server_ok init"
  by (simp add: server_ok_def init_def)

lemma server_ok_submit: "server_ok s \<Longrightarrow> server_ok (snd (submit nanoid body s))"
  by (simp add: submit_cases server_ok_def)

lemma server_ok_startCall:
  assumes "server_ok s"
  shows "server_ok (startCall jobId (executeJob jobId t p now rnd) s)"
proof -
  let ?e = "executeJob jobId t p now rnd"
  let ?states = "seen ?e @ [job ?e]"
  have "\<forall>j \<in> set (seen ?e). steady j"
    using executeJob_states [of jobId t p now rnd] by simp
  then have po: "pending_ok (hd ?states) (tl ?states)" and kn: "known (hd ?states)"
    using executeJob_final_status [of jobId t p now rnd]
    by (blast intro: pending_ok_trace)+
  have lt: "\<forall>i < length (calls s). fst (calls s ! i) < length (heap s)"
    using assms by (simp add: server_ok_def)
  have notin: "length (heap s) \<notin> set (map fst (calls s))"
  proof
    assume "length (heap s) \<in> set (map fst (calls s))"
    then obtain i where "i < length (calls s)" "fst (calls s ! i) = length (heap s)"
      by (auto simp: in_set_conv_nth)
    with lt show False by fastforce
  qed
  have "\<forall>i < Suc (length (calls s)).
        fst ((calls s @ [(length (heap s), tl ?states)]) ! i) < Suc (length (heap s)) \<and>
        pending_ok ((heap s @ [hd ?states]) ! fst ((calls s @ [(length (heap s), tl ?states)]) ! i))
          (snd ((calls s @ [(length (heap s), tl ?states)]) ! i))"
  proof (intro allI impI)
    fix i assume "i < Suc (length (calls s))"
    then consider "i < length (calls s)" | "i = length (calls s)" by linarith
    then show "fst ((calls s @ [(length (heap s), tl ?states)]) ! i) < Suc (length (heap s)) \<and>
        pending_ok ((heap s @ [hd ?states]) ! fst ((calls s @ [(length (heap s), tl ?states)]) ! i))
          (snd ((calls s @ [(length (heap s), tl ?states)]) ! i))"
    proof cases
      case 1
      with assms show ?thesis by (simp add: server_ok_def nth_append less_Suc_eq)
    next
      case 2
      with po show ?thesis by (simp add: nth_append)
    qed
  qed
  moreover have "\<forall>jobId' a. ((jobs s)(jobId \<mapsto> length (heap s))) jobId' = Some a
      \<longrightarrow> a < Suc (length (heap s))"
    using assms by (auto simp: server_ok_def less_Suc_eq)
  ultimately show ?thesis
    using assms kn notin
    by (simp add: startCall_def Let_def server_ok_def)
qed

lemma server_ok_stream: "server_ok s \<Longrightarrow> server_ok (snd (stream jobId q failRate now rnd s))"
  by (auto simp: stream_def Let_def server_ok_startCall split: option.splits)

lemma server_ok_resume:
  assumes "server_ok s"
  shows "server_ok (resume k s)"
proof (cases "k < length (calls s)")
  case False
  with assms show ?thesis by (simp add: resume_def)
next
  case k: True
  obtain a js where ck: "calls s ! k = (a, js)" by (cases "calls s ! k")
  show ?thesis
  proof (cases js)
    case Nil
    with k ck assms show ?thesis by (simp add: resume_def)
  next
    case (Cons j js')
    from assms k ck have a: "a < length (heap s)" and po: "pending_ok (heap s ! a) (j # js')"
      unfolding server_ok_def Cons by (metis fst_conv snd_conv)+
    have fsts: "map fst ((calls s)[k := (a, js')]) = map fst (calls s)"
      using k ck by (simp add: map_update list_update_same_conv)
    have dist: "distinct (map fst (calls s))" using assms by (simp add: server_ok_def)
    have other: "\<And>i. i < length (calls s) \<Longrightarrow> i \<noteq> k \<Longrightarrow> fst (calls s ! i) \<noteq> a"
    proof -
      fix i assume i: "i < length (calls s)" "i \<noteq> k"
      from dist i k have "map fst (calls s) ! i \<noteq> map fst (calls s) ! k"
        using nth_eq_iff_index_eq [of "map fst (calls s)" i k] by simp
      with i k ck show "fst (calls s ! i) \<noteq> a" by simp
    qed
    have calls': "\<forall>i < length (calls s).
        fst ((calls s)[k := (a, js')] ! i) < length (heap s) \<and>
        pending_ok ((heap s)[a := j] ! fst ((calls s)[k := (a, js')] ! i))
          (snd ((calls s)[k := (a, js')] ! i))"
    proof (intro allI impI)
      fix i assume i: "i < length (calls s)"
      show "fst ((calls s)[k := (a, js')] ! i) < length (heap s) \<and>
        pending_ok ((heap s)[a := j] ! fst ((calls s)[k := (a, js')] ! i))
          (snd ((calls s)[k := (a, js')] ! i))"
      proof (cases "i = k")
        case True
        with k a po show ?thesis by (simp add: pending_ok_next)
      next
        case False
        with i other [of i] assms show ?thesis by (simp add: server_ok_def)
      qed
    qed
    have heap': "\<forall>x \<in> set ((heap s)[a := j]). known x"
      using assms pending_ok_known [OF po] set_update_subset_insert [of "heap s" a j]
      by (auto simp: server_ok_def)
    from assms have "\<forall>jobId a. jobs s jobId = Some a \<longrightarrow> a < length (heap s)"
      by (simp add: server_ok_def)
    with calls' heap' dist fsts k ck Cons show ?thesis
      by (simp add: resume_def server_ok_def)
  qed
qed

lemma server_ok_perform: "server_ok s \<Longrightarrow> server_ok (perform nanoid act s)"
  by (cases act) (simp_all add: server_ok_submit server_ok_stream server_ok_resume)

lemma reachable_server_ok: "reachable nanoid s \<Longrightarrow> server_ok s"
  by (induction rule: reachable.induct) (simp_all add: server_ok_init server_ok_perform)

lemma reachable_run: "reachable nanoid s \<Longrightarrow> reachable nanoid (run nanoid acts s)"
  by (induction acts arbitrary: s) (simp_all add: reachable_step)

subsection \<open>Terminal records\<close>

lemma jobs_get_submit: "jobs_get (snd (submit nanoid body s)) jobId = jobs_get s jobId"
proof -
  have "jobs (snd (submit nanoid body s)) = jobs s" "heap (snd (submit nanoid body s)) = heap s"
    by (simp_all add: submit_cases)
  then show ?thesis by (simp add: jobs_get_def split: option.split)
qed

lemma jobs_get_startCall_other:
  assumes "server_ok s" "jobId' \<noteq> jobId"
  shows "jobs_get (startCall jobId e s) jobId' = jobs_get s jobId'"
proof (cases "jobs s jobId'")
  case None
  with assms show ?thesis by (simp add: jobs_get_def startCall_def Let_def)
next
  case (Some a)
  with assms have "a < length (heap s)" by (simp add: server_ok_def)
  with Some assms show ?thesis
    by (simp add: jobs_get_def startCall_def Let_def nth_append)
qed

lemma jobs_get_resume_completed:
  assumes "server_ok s" "jobs_get s jobId = Some j" "j_status j = ''completed''"
  shows "jobs_get (resume k s) jobId = Some j"
proof (cases "k < length (calls s)")
  case False
  with assms show ?thesis by (simp add: resume_def)
next
  case k: True
  obtain a js where ck: "calls s ! k = (a, js)" by (cases "calls s ! k")
  from assms(2) obtain b where b: "jobs s jobId = Some b" "heap s ! b = j"
    by (auto simp: jobs_get_def split: option.splits)
  show ?thesis
  proof (cases js)
    case Nil
    with k ck assms show ?thesis by (simp add: resume_def)
  next
    case (Cons j' js')
    from assms(1) k ck have "pending_ok (heap s ! a) (j' # js')"
      unfolding server_ok_def Cons by (metis fst_conv snd_conv)
    then have "j_status (heap s ! a) = ''running''" by (simp add: pending_ok_def)
    with b assms(3) have "a \<noteq> b" by auto
    with k ck Cons b show ?thesis
      by (simp add: resume_def jobs_get_def)
  qed
qed

lemma stream_starts_call:
  assumes "jobs_get s jobId = None \<or> (\<exists>j. jobs_get s jobId = Some j \<and> j_status j \<noteq> ''completed'')"
  shows "snd (stream jobId q failRate now rnd s) =
           startCall jobId (executeJob jobId (streamText q) (streamFailRate failRate) now rnd) s"
  using assms by (auto simp: stream_def Let_def)

lemma jobs_get_startCall: "jobs_get (startCall jobId e s) jobId = Some (hd (seen e @ [job e]))"
  by (simp add: jobs_get_def startCall_def Let_def)

lemma executeJob_seen_nonempty: "seen (executeJob jobId t p now rnd) \<noteq> []"
proof (cases "noFailure p rnd 0 (totalSteps (planAgents t))")
  case True
  from planAgents_head [of t] have "0 < totalSteps (planAgents t)" by auto
  with executeJob_all_ok(5) [OF True, of jobId now] show ?thesis by auto
next
  case False
  from first_failure [OF False] obtain before agent after s where
    "planAgents t = before @ agent # after" "1 \<le> s" "s \<le> a_steps agent"
    "noFailure p rnd 0 (totalSteps before + (s - 1))"
    "js_less (rnd (totalSteps before + (s - 1))) p"
    by blast
  from executeJob_fails(2) [OF this, of jobId now]
  have "j_status (job (executeJob jobId t p now rnd)) = ''error''" by simp
  with executeJob_states [of jobId t p now rnd] show ?thesis by auto
qed

lemma first_state_running:
  "j_status (hd (seen (executeJob jobId t p now rnd) @ [job (executeJob jobId t p now rnd)]))
     = ''running''"
  using executeJob_seen_nonempty [of jobId t p now rnd]
    executeJob_seen_running [of _ jobId t p now rnd]
  by (cases "seen (executeJob jobId t p now rnd)") simp_all

lemma registry_record_cases:
  "(reachable nanoid s \<and> jobs_get s jobId = Some j \<and> j_status j = ''completed'' \<longrightarrow>
      jobs_get (perform nanoid act s) jobId = Some j \<and>
      stream jobId q failRate now rnd s = (replay jobId j, s)) \<and>
   (jobs_get s jobId = Some j \<and> j_status j = ''error'' \<longrightarrow>
      (\<exists>j'. jobs_get (snd (stream jobId q failRate now rnd s)) jobId = Some j' \<and>
            j_status j' = ''running''))"
proof (rule conjI; rule impI)
  assume h: "reachable nanoid s \<and> jobs_get s jobId = Some j \<and> j_status j = ''completed''"
  then have wf: "server_ok s" by (blast intro: reachable_server_ok)
  have "jobs_get (perform nanoid act s) jobId = Some j"
  proof (cases act)
    case (Submit body)
    with h show ?thesis by (simp add: jobs_get_submit)
  next
    case (Stream jobId' q' failRate' now' rnd')
    show ?thesis
    proof (cases "jobId' = jobId")
      case True
      with Stream h show ?thesis by (simp add: stream_def)
    next
      case False
      then have "jobId \<noteq> jobId'" by simp
      with Stream h wf show ?thesis
        by (simp add: stream_def Let_def jobs_get_startCall_other split: option.splits)
    qed
  next
    case (Resume k)
    with wf h show ?thesis by (simp add: jobs_get_resume_completed)
  qed
  with h show "jobs_get (perform nanoid act s) jobId = Some j \<and>
      stream jobId q failRate now rnd s = (replay jobId j, s)"
    by (simp add: stream_def)
next
  assume h: "jobs_get s jobId = Some j \<and> j_status j = ''error''"
  then have "snd (stream jobId q failRate now rnd s) =
      startCall jobId (executeJob jobId (streamText q) (streamFailRate failRate) now rnd) s"
    by (intro stream_starts_call) simp
  then show "\<exists>j'. jobs_get (snd (stream jobId q failRate now rnd s)) jobId = Some j' \<and>
            j_status j' = ''running''"
    by (simp add: jobs_get_startCall first_state_running)
qed

lemma heap_after_resumes:
  "k < length (calls s) \<Longrightarrow> calls s ! k = (a, js) \<Longrightarrow> a < length (heap s) \<Longrightarrow>
   heap (run nanoid (replicate (length js) (Resume k)) s) ! a = last (heap s ! a # js) \<and>
   jobs (run nanoid (replicate (length js) (Resume k)) s) = jobs s"
proof (induction js arbitrary: s)
  case Nil
  then show ?case by simp
next
  case (Cons j js)
  let ?s1 = "resume k s"
  from Cons.prems have s1: "?s1 = s\<lparr>heap := (heap s)[a := j], calls := (calls s)[k := (a, js)]\<rparr>"
    by (simp add: resume_def)
  from Cons.prems have "k < length (calls ?s1)" "calls ?s1 ! k = (a, js)" "a < length (heap ?s1)"
    unfolding s1 by simp_all
  from Cons.IH [OF this] Cons.prems show ?case
    by (simp add: s1)
qed

lemma stream_then_resumes:
  fixes jobId q failRate now rnd
  assumes "jobs_get s jobId = None"
  defines "e \<equiv> executeJob jobId (streamText q) (streamFailRate failRate) now rnd"
  shows "jobs_get (run nanoid (Stream jobId q failRate now rnd # replicate (length (seen e)) (Resume (length (calls s)))) s)
           jobId = Some (job e)"
proof -
  let ?s1 = "startCall jobId e s"
  let ?states = "seen e @ [job e]"
  have s1: "snd (stream jobId q failRate now rnd s) = ?s1"
    using assms(1) by (simp add: stream_def Let_def e_def)
  have "length (calls s) < length (calls ?s1)"
    "calls ?s1 ! length (calls s) = (length (heap s), tl ?states)"
    "length (heap s) < length (heap ?s1)"
    by (simp_all add: startCall_def Let_def)
  from heap_after_resumes [OF this, of nanoid]
  have "heap (run nanoid (replicate (length (seen e)) (Resume (length (calls s)))) ?s1) ! length (heap s)
          = last (heap ?s1 ! length (heap s) # tl ?states)"
    "jobs (run nanoid (replicate (length (seen e)) (Resume (length (calls s)))) ?s1) = jobs ?s1"
    by simp_all
  moreover have "heap ?s1 ! length (heap s) = hd ?states" "jobs ?s1 jobId = Some (length (heap s))"
    by (simp_all add: startCall_def Let_def)
  moreover have "last (hd ?states # tl ?states) = job e"
    by (cases "seen e") simp_all
  ultimately show ?thesis
    by (simp add: s1 jobs_get_def)
qed

lemma default_plan_steps:
  "totalSteps (planAgents ''General business analysis request'') = 11"
  by (simp add: planAgents_def toLowerCase_def lowerChar_def startsWith_def baseAgents_def
      mkAgent_def)

lemma zeroDraws_unit: "unit_draws zeroDraws"
  by (simp add: unit_draws_def zeroDraws_def)

lemma completed_example:
  "jobs_get (run sampleIds (Stream ''j1'' QUndefined QUndefined 0 zeroDraws # replicate 11 (Resume 0))
               init) ''j1''
     = Some (job (executeJob ''j1'' ''General business analysis request'' (Fin 0) 0 zeroDraws)) \<and>
   j_status (job (executeJob ''j1'' ''General business analysis request'' (Fin 0) 0 zeroDraws))
     = ''completed''"
proof -
  let ?e = "executeJob ''j1'' ''General business analysis request'' (Fin 0) 0 zeroDraws"
  have nf: "noFailure (Fin 0) zeroDraws 0 (totalSteps (planAgents ''General business analysis request''))"
    using zeroDraws_unit by (rule unit_draws_no_failure_0)
  have len: "length (seen ?e) = 11"
    using executeJob_all_ok(5) [OF nf] by (simp add: default_plan_steps)
  have "jobs_get init ''j1'' = None" by (simp add: jobs_get_def init_def)
  from stream_then_resumes [OF this, of sampleIds QUndefined QUndefined 0 zeroDraws]
  have "jobs_get (run sampleIds (Stream ''j1'' QUndefined QUndefined 0 zeroDraws # replicate 11 (Resume 0))
               init) ''j1'' = Some (job ?e)"
    by (simp add: streamText_def streamFailRate_def len init_def)
  moreover have "j_status (job ?e) = ''completed''"
    using executeJob_all_ok(2) [OF nf] by simp
  ultimately show ?thesis by simp
qed

lemma terminal_object_fixed:
  assumes "server_ok s" "a < length (heap s)" "j_status (heap s ! a) \<noteq> ''running''"
  shows "heap (perform nanoid act s) ! a = heap s ! a"
proof (cases act)
  case (Submit body)
  then show ?thesis by (simp add: submit_cases)
next
  case (Stream jobId q failRate now rnd)
  with assms(2) show ?thesis
    by (simp add: stream_def startCall_def Let_def nth_append split: option.splits)
next
  case (Resume k)
  show ?thesis
  proof (cases "k < length (calls s)")
    case False
    with Resume show ?thesis by (simp add: resume_def)
  next
    case k: True
    obtain a' js where ck: "calls s ! k = (a', js)" by (cases "calls s ! k")
    show ?thesis
    proof (cases js)
      case Nil
      with Resume k ck show ?thesis by (simp add: resume_def)
    next
      case (Cons j' js')
      from assms(1) k ck have "pending_ok (heap s ! a') (j' # js')"
        unfolding server_ok_def Cons by (metis fst_conv snd_conv)
      then have "j_status (heap s ! a') = ''running''" by (simp add: pending_ok_def)
      with assms(3) have "a' \<noteq> a" by auto
      with Resume k ck Cons show ?thesis by (simp add: resume_def)
    qed
  qed
qed

text \<open>
  Claim C7, as amended. In every state the server can reach, a registry record with
  status \<^verbatim>\<open>completed\<close> is final: whatever happens next (a submission, a stream opened for
  this or for another identity, a running call waking up), the registry returns the same
  record for that identity; a stream opened for it emits the replay of the record and
  leaves the state as it is. A record with status \<^verbatim>\<open>error\<close> is not final: a stream opened
  for its identity starts a new call, and the registry then returns the job of that call,
  which is running. The job object itself, once \<^verbatim>\<open>completed\<close> or \<^verbatim>\<open>error\<close>, is never written
  again: what changes for an \<^verbatim>\<open>error\<close> record is the object the registry holds.
\<close>

theorem completed_record_is_final:
  "(reachable nanoid s \<and> jobs_get s jobId = Some j \<and> j_status j = ''completed'' \<longrightarrow>
      jobs_get (perform nanoid act s) jobId = Some j \<and>
      stream jobId q failRate now rnd s = (replay jobId j, s)) \<and>
   (jobs_get s jobId = Some j \<and> j_status j = ''error'' \<longrightarrow>
      (\<exists>j'. jobs_get (snd (stream jobId q failRate now rnd s)) jobId = Some j' \<and>
            j_status j' = ''running'')) \<and>
   (reachable nanoid s \<and> jobs s jobId = Some a \<and>
    (j_status (heap s ! a) = ''completed'' \<or> j_status (heap s ! a) = ''error'') \<longrightarrow>
      heap (perform nanoid act s) ! a = heap s ! a)"
proof -
  have obj: "reachable nanoid s \<and> jobs s jobId = Some a \<and>
    (j_status (heap s ! a) = ''completed'' \<or> j_status (heap s ! a) = ''error'') \<longrightarrow>
      heap (perform nanoid act s) ! a = heap s ! a"
  proof
    assume h: "reachable nanoid s \<and> jobs s jobId = Some a \<and>
      (j_status (heap s ! a) = ''completed'' \<or> j_status (heap s ! a) = ''error'')"
    then have ok: "server_ok s" by (blast intro: reachable_server_ok)
    with h have "a < length (heap s)" unfolding server_ok_def by blast
    moreover from h have "j_status (heap s ! a) \<noteq> ''running''" by auto
    ultimately show "heap (perform nanoid act s) ! a = heap s ! a"
      using ok by (intro terminal_object_fixed)
  qed
  from registry_record_cases [of nanoid s jobId j act q failRate now rnd] obj
  show ?thesis by blast
qed

lemma error_example:
  "map_option j_status
     (jobs_get (run sampleIds [Stream ''j1'' QUndefined (QString ''1'') 0 zeroDraws, Resume 0] init)
        ''j1'') = Some ''error''"
  by code_simp

theorem completed_record_is_final_witness:
  "(reachable sampleIds
      (run sampleIds (Stream ''j1'' QUndefined QUndefined 0 zeroDraws # replicate 11 (Resume 0)) init) \<and>
    map_option j_status
      (jobs_get (run sampleIds (Stream ''j1'' QUndefined QUndefined 0 zeroDraws # replicate 11 (Resume 0))
                   init) ''j1'') = Some ''completed'' \<and>
    jobs_get (perform sampleIds (Stream ''j1'' (QString ''again'') (QString ''1'') 5 zeroDraws)
                (run sampleIds (Stream ''j1'' QUndefined QUndefined 0 zeroDraws # replicate 11 (Resume 0))
                   init)) ''j1''
      = jobs_get (run sampleIds (Stream ''j1'' QUndefined QUndefined 0 zeroDraws # replicate 11 (Resume 0))
                    init) ''j1'') \<and>
   (map_option j_status
      (jobs_get (run sampleIds [Stream ''j1'' QUndefined (QString ''1'') 0 zeroDraws, Resume 0] init)
         ''j1'') = Some ''error'' \<and>
    map_option j_status
      (jobs_get (snd (stream ''j1'' QUndefined QUndefined 5 zeroDraws
                        (run sampleIds [Stream ''j1'' QUndefined (QString ''1'') 0 zeroDraws, Resume 0]
                           init)))
         ''j1'') = Some ''running'') \<and>
   (reachable sampleIds
      (run sampleIds [Stream ''j1'' QUndefined (QString ''1'') 0 zeroDraws, Resume 0] init) \<and>
    jobs (run sampleIds [Stream ''j1'' QUndefined (QString ''1'') 0 zeroDraws, Resume 0] init) ''j1''
      = Some 0 \<and>
    j_status (heap (run sampleIds [Stream ''j1'' QUndefined (QString ''1'') 0 zeroDraws, Resume 0] init)
                ! 0) = ''error'' \<and>
    heap (perform sampleIds (Stream ''j1'' QUndefined QUndefined 5 zeroDraws)
            (run sampleIds [Stream ''j1'' QUndefined (QString ''1'') 0 zeroDraws, Resume 0] init)) ! 0
      = heap (run sampleIds [Stream ''j1'' QUndefined (QString ''1'') 0 zeroDraws, Resume 0] init) ! 0)"
proof -
  let ?s = "run sampleIds (Stream ''j1'' QUndefined QUndefined 0 zeroDraws # replicate 11 (Resume 0)) init"
  let ?j = "job (executeJob ''j1'' ''General business analysis request'' (Fin 0) 0 zeroDraws)"
  let ?t = "run sampleIds [Stream ''j1'' QUndefined (QString ''1'') 0 zeroDraws, Resume 0] init"
  have r: "reachable sampleIds ?s"
    by (rule reachable_run) (rule reachable_init)
  have rt: "reachable sampleIds ?t"
    by (rule reachable_run) (rule reachable_init)
  from completed_example have j: "jobs_get ?s ''j1'' = Some ?j" "j_status ?j = ''completed''"
    by simp_all
  from error_example obtain j' where j': "jobs_get ?t ''j1'' = Some j'" "j_status j' = ''error''"
    by auto
  have at: "jobs ?t ''j1'' = Some 0" "j_status (heap ?t ! 0) = ''error''"
    by code_simp+
  from completed_record_is_final
         [of sampleIds ?s "''j1''" ?j "Stream ''j1'' (QString ''again'') (QString ''1'') 5 zeroDraws"]
    r j
  have a: "jobs_get (perform sampleIds (Stream ''j1'' (QString ''again'') (QString ''1'') 5 zeroDraws) ?s)
             ''j1'' = Some ?j"
    by blast
  from completed_record_is_final [of sampleIds ?t "''j1''" j' _ QUndefined QUndefined 5 zeroDraws] j'
  have b: "\<exists>x. jobs_get (snd (stream ''j1'' QUndefined QUndefined 5 zeroDraws ?t)) ''j1'' = Some x \<and>
               j_status x = ''running''"
    by blast
  from completed_record_is_final
         [of sampleIds ?t "''j1''" _ "Stream ''j1'' QUndefined QUndefined 5 zeroDraws" _ _ _ _ 0]
    rt at
  have c: "heap (perform sampleIds (Stream ''j1'' QUndefined QUndefined 5 zeroDraws) ?t) ! 0
             = heap ?t ! 0"
    by blast
  from r rt j a b c at error_example show ?thesis by auto
qed

text \<open>
  Claim C7 as stated fails for a record with status \<^verbatim>\<open>error\<close>: a stream is opened for
  \<^verbatim>\<open>j1\<close> with failure rate 1 and its call fails at the first step, which leaves an
  \<^verbatim>\<open>error\<close> record; a second stream opened for \<^verbatim>\<open>j1\<close> stores a new, running job under that
  identity.
\<close>

theorem error_record_is_replaced:
  "map_option j_status
     (jobs_get (run sampleIds [Stream ''j1'' QUndefined (QString ''1'') 0 zeroDraws, Resume 0] init)
        ''j1'') = Some ''error'' \<and>
   map_option j_status
     (jobs_get (perform sampleIds (Stream ''j1'' QUndefined (QString ''1'') 5 zeroDraws)
                 (run sampleIds [Stream ''j1'' QUndefined (QString ''1'') 0 zeroDraws, Resume 0] init))
        ''j1'') = Some ''running''"
  by code_simp

subsection \<open>Lifecycle of a job\<close>

lemma reachable_known:
  assumes "reachable nanoid s" "jobs_get s jobId = Some j"
  shows "known j"
proof -
  from assms(1) have ok: "server_ok s" by (rule reachable_server_ok)
  from assms(2) obtain a where a: "jobs s jobId = Some a" "heap s ! a = j"
    by (auto simp: jobs_get_def split: option.splits)
  with ok have "a < length (heap s)" by (simp add: server_ok_def)
  with a have "j \<in> set (heap s)" by auto
  with ok show ?thesis by (simp add: server_ok_def)
qed

text \<open>
  Claim C6, as amended. A job goes from \<^verbatim>\<open>running\<close> to \<^verbatim>\<open>completed\<close> or \<^verbatim>\<open>error\<close>, and there
  is no status \<^verbatim>\<open>pending\<close>: a submission creates no registry record; the record is created
  when a stream is opened for the identity, by \<^verbatim>\<open>executeJob\<close>, with status \<^verbatim>\<open>running\<close> and
  an empty list of runs, and the registry returns it as running once the handler has
  returned; the job is running at every suspension point of the call and \<^verbatim>\<open>completed\<close> or
  \<^verbatim>\<open>error\<close> when the call returns; and every record the registry ever returns has one of
  these three statuses.
\<close>

theorem job_lifecycle:
  "jobs_get (snd (submit nanoid body s)) jobId = jobs_get s jobId \<and>
   (jobs_get s jobId = None \<longrightarrow>
      (\<exists>j. jobs_get (snd (stream jobId q failRate now rnd s)) jobId = Some j \<and>
           j_status j = ''running'')) \<and>
   j_status (newJob jobId now) = ''running'' \<and> j_agents (newJob jobId now) = [] \<and>
   (let e = executeJob jobId t p now rnd in
      seen e \<noteq> [] \<and> (\<forall>j \<in> set (seen e). j_status j = ''running'') \<and>
      (j_status (job e) = ''completed'' \<or> j_status (job e) = ''error'')) \<and>
   (reachable nanoid s \<and> jobs_get s jobId = Some j \<longrightarrow>
      (j_status j = ''running'' \<or> j_status j = ''completed'' \<or> j_status j = ''error'') \<and>
      j_status j \<noteq> ''pending'')"
proof -
  have a: "jobs_get s jobId = None \<longrightarrow>
      (\<exists>j. jobs_get (snd (stream jobId q failRate now rnd s)) jobId = Some j \<and>
           j_status j = ''running'')"
    by (simp add: stream_starts_call jobs_get_startCall first_state_running)
  have b: "reachable nanoid s \<and> jobs_get s jobId = Some j \<longrightarrow>
      (j_status j = ''running'' \<or> j_status j = ''completed'' \<or> j_status j = ''error'') \<and>
      j_status j \<noteq> ''pending''"
    using reachable_known [of nanoid s jobId j] by (auto simp: known_def)
  have c: "let e = executeJob jobId t p now rnd in
      seen e \<noteq> [] \<and> (\<forall>j \<in> set (seen e). j_status j = ''running'') \<and>
      (j_status (job e) = ''completed'' \<or> j_status (job e) = ''error'')"
    unfolding Let_def
    using executeJob_seen_nonempty [of jobId t p now rnd]
      executeJob_seen_running [of _ jobId t p now rnd]
      executeJob_final_status [of jobId t p now rnd]
    by blast
  from a b c show ?thesis
    by (simp add: jobs_get_submit newJob_def)
qed

theorem job_lifecycle_witness:
  "jobs_get init ''a'' = None \<and>
   map_option j_status
     (jobs_get (snd (stream ''a'' (QString ''hi'') (QString ''1'') 0 zeroDraws init)) ''a'')
     = Some ''running'' \<and>
   reachable sampleIds
     (run sampleIds [Stream ''j1'' QUndefined (QString ''1'') 0 zeroDraws, Resume 0] init) \<and>
   map_option j_status
     (jobs_get (run sampleIds [Stream ''j1'' QUndefined (QString ''1'') 0 zeroDraws, Resume 0] init)
        ''j1'') = Some ''error'' \<and>
   map_option j_status
     (jobs_get (run sampleIds [Stream ''j1'' QUndefined (QString ''1'') 0 zeroDraws, Resume 0] init)
        ''j1'') \<noteq> Some ''pending'' \<and>
   set (seen (executeJob ''j1'' ''hi'' (Fin 1) 0 zeroDraws)) \<noteq> {} \<and>
   j_status (job (executeJob ''j1'' ''hi'' (Fin 1) 0 zeroDraws)) = ''error''"
proof -
  let ?t = "run sampleIds [Stream ''j1'' QUndefined (QString ''1'') 0 zeroDraws, Resume 0] init"
  have n: "jobs_get init ''a'' = None" by (simp add: jobs_get_def init_def)
  have r: "reachable sampleIds ?t"
    by (rule reachable_run) (rule reachable_init)
  from error_example obtain j where j: "jobs_get ?t ''j1'' = Some j" "j_status j = ''error''"
    by auto
  have e: "j_status (job (executeJob ''j1'' ''hi'' (Fin 1) 0 zeroDraws)) = ''error''"
    by code_simp
  note L = job_lifecycle [where nanoid = sampleIds and s = init and jobId = "''a''"
      and q = "QString ''hi''" and failRate = "QString ''1''" and now = 0 and rnd = zeroDraws]
  from L n have "\<exists>x. jobs_get (snd (stream ''a'' (QString ''hi'') (QString ''1'') 0 zeroDraws init)) ''a''
                  = Some x \<and> j_status x = ''running''"
    by blast
  moreover from job_lifecycle [where nanoid = sampleIds and s = ?t and jobId = "''j1''"
      and now = 0 and rnd = zeroDraws and t = "''hi''" and p = "Fin 1" and j = j]
    r j
  have "seen (executeJob ''j1'' ''hi'' (Fin 1) 0 zeroDraws) \<noteq> []" "j_status j \<noteq> ''pending''"
    unfolding Let_def by blast+
  ultimately show ?thesis
    using n r j e error_example by auto
qed

text \<open>
  Claim C6 as stated fails: after a submission that returned the identity \<^verbatim>\<open>a\<close> the
  registry holds no record for \<^verbatim>\<open>a\<close>, so none with status \<^verbatim>\<open>pending\<close>; the record that
  \<^verbatim>\<open>executeJob\<close> creates has status \<^verbatim>\<open>running\<close>, and so has the record the registry returns
  once a stream has been opened for \<^verbatim>\<open>a\<close>.
\<close>

theorem no_pending_record:
  "fst (submit sampleIds (Some (JObj [(''request'', JStr ''hi'')])) init)
     = Status200 (JObj [(''jobId'', JStr ''a'')]) \<and>
   jobs_get (snd (submit sampleIds (Some (JObj [(''request'', JStr ''hi'')])) init)) ''a'' = None \<and>
   j_status (newJob ''a'' 0) = ''running'' \<and>
   map_option j_status
     (jobs_get (snd (stream ''a'' (QString ''hi'') (QString ''1'') 0 zeroDraws
                       (snd (submit sampleIds (Some (JObj [(''request'', JStr ''hi'')])) init))))
        ''a'') = Some ''running''"
  by code_simp

subsection \<open>Replay\<close>

lemma remdups_adj_run:
  "0 < n \<Longrightarrow> x \<noteq> y \<Longrightarrow> remdups_adj (replicate n x @ y # rest) = x # remdups_adj (y # rest)"
proof (induction n)
  case 0
  then show ?case by simp
next
  case (Suc n)
  show ?case
  proof (cases n)
    case 0
    with Suc.prems show ?thesis by simp
  next
    case (Suc m)
    with Suc.IH Suc.prems show ?thesis by simp
  qed
qed

lemma remdups_adj_stages:
  "x \<noteq> ''agent-start'' \<Longrightarrow> x \<noteq> ''job-complete'' \<Longrightarrow> \<forall>a \<in> set agents. 0 < a_steps a \<Longrightarrow>
   remdups_adj (x # concat (map (\<lambda>a. ''agent-start'' # replicate (a_steps a) ''agent-progress''
                                        @ [''agent-complete'']) agents) @ [''job-complete''])
     = x # concat (map (\<lambda>a. [''agent-start'', ''agent-progress'', ''agent-complete'']) agents)
         @ [''job-complete'']"
proof (induction agents arbitrary: x)
  case Nil
  then show ?case by simp
next
  case (Cons a agents)
  let ?tail = "concat (map (\<lambda>a. ''agent-start'' # replicate (a_steps a) ''agent-progress''
                                        @ [''agent-complete'']) agents) @ [''job-complete'']"
  from Cons.prems have pos: "0 < a_steps a" and rest: "\<forall>a \<in> set agents. 0 < a_steps a"
    by simp_all
  have run: "remdups_adj (replicate (a_steps a) ''agent-progress'' @ ''agent-complete'' # ?tail)
      = ''agent-progress'' # remdups_adj (''agent-complete'' # ?tail)"
    using pos by (intro remdups_adj_run) simp_all
  have "remdups_adj (''agent-start'' # replicate (a_steps a) ''agent-progress''
                       @ ''agent-complete'' # ?tail)
      = ''agent-start'' # remdups_adj (replicate (a_steps a) ''agent-progress''
                       @ ''agent-complete'' # ?tail)"
    using pos by (cases "a_steps a") simp_all
  with run Cons.IH [of "''agent-complete''", OF _ _ rest] Cons.prems(1) show ?case
    by simp
qed

lemma replay_names:
  "map fst (replay jobId j) =
     ''job-start'' # ''plan''
       # concat (map (\<lambda>a. [''agent-start'', ''agent-progress'', ''agent-complete'']) (j_agents j))
       @ [''job-complete'']"
  by (simp add: replay_def map_concat comp_def)

lemma agentEvents_names_list:
  "map fst (agentEvents a) =
     ''agent-start'' # replicate (a_steps a) ''agent-progress'' @ [''agent-complete'']"
proof -
  have "map (\<lambda>k. fst (progressEvent a k)) [1..<Suc (a_steps a)] = replicate (a_steps a) ''agent-progress''"
    by (simp add: map_replicate_const)
  then show ?thesis by (simp add: agentEvents_def comp_def)
qed

lemma completed_no_failure:
  assumes "j_status (job (executeJob jobId t p now rnd)) = ''completed''"
  shows "noFailure p rnd 0 (totalSteps (planAgents t))"
proof (rule ccontr)
  assume "\<not> noFailure p rnd 0 (totalSteps (planAgents t))"
  from first_failure [OF this] obtain before agent after s where
    "planAgents t = before @ agent # after" "1 \<le> s" "s \<le> a_steps agent"
    "noFailure p rnd 0 (totalSteps before + (s - 1))"
    "js_less (rnd (totalSteps before + (s - 1))) p"
    by blast
  from executeJob_fails(2) [OF this, of jobId now] assms show False by simp
qed

text \<open>
  Claim C2. Let a call of \<^verbatim>\<open>executeJob\<close> have ended with status \<^verbatim>\<open>completed\<close>. The replay
  of its job record emits \<^verbatim>\<open>job-start\<close>, \<^verbatim>\<open>plan\<close>, then for each agent in plan order
  \<^verbatim>\<open>agent-start\<close>, \<^verbatim>\<open>agent-progress\<close>, \<^verbatim>\<open>agent-complete\<close>, then \<^verbatim>\<open>job-complete\<close>. These are the
  event names of the live run in the same order, the live run repeating \<^verbatim>\<open>agent-progress\<close>
  once per step where the replay has it once per agent. The replay is a function of the
  stored record alone, and a stream opened for the identity of such a record emits it and
  leaves the server as it is: no call of the engine is started.
\<close>

theorem replay_same_event_order:
  assumes "j_status (job (executeJob jobId t p now rnd)) = ''completed''"
  shows "map fst (replay jobId (job (executeJob jobId t p now rnd))) =
           ''job-start'' # ''plan''
             # concat (map (\<lambda>a. [''agent-start'', ''agent-progress'', ''agent-complete''])
                         (planAgents t))
             @ [''job-complete''] \<and>
         map fst (replay jobId (job (executeJob jobId t p now rnd))) =
           remdups_adj (map fst (sink (executeJob jobId t p now rnd))) \<and>
         (jobs_get s jobId = Some (job (executeJob jobId t p now rnd)) \<longrightarrow>
            stream jobId q failRate now' rnd' s =
              (replay jobId (job (executeJob jobId t p now rnd)), s))"
proof -
  let ?e = "executeJob jobId t p now rnd"
  from assms have nf: "noFailure p rnd 0 (totalSteps (planAgents t))"
    by (rule completed_no_failure)
  note ok = executeJob_all_ok [OF nf, of jobId now]
  have pos: "\<forall>a \<in> set (planAgents t). 0 < a_steps a"
    using planAgents_steps by fastforce
  have names: "map fst (replay jobId (job ?e)) =
           ''job-start'' # ''plan''
             # concat (map (\<lambda>a. [''agent-start'', ''agent-progress'', ''agent-complete''])
                         (planAgents t))
             @ [''job-complete'']"
    by (simp add: replay_names ok(2) completedAgents_def comp_def)
  have live: "map fst (sink ?e) =
      ''job-start'' # ''plan''
        # concat (map (\<lambda>a. ''agent-start'' # replicate (a_steps a) ''agent-progress''
                              @ [''agent-complete'']) (planAgents t))
        @ [''job-complete'']"
    by (simp add: ok(1) map_concat comp_def agentEvents_names_list)
  have "remdups_adj (map fst (sink ?e)) = map fst (replay jobId (job ?e))"
    unfolding live names using remdups_adj_stages [of "''plan''" "planAgents t", OF _ _ pos]
    by simp
  with names assms show ?thesis
    by (simp add: stream_def)
qed

theorem replay_same_event_order_witness:
  "j_status (job (executeJob ''j1'' ''General business analysis request'' (Fin 0) 0 zeroDraws))
     = ''completed'' \<and>
   jobs_get (run sampleIds (Stream ''j1'' QUndefined QUndefined 0 zeroDraws # replicate 11 (Resume 0))
               init) ''j1''
     = Some (job (executeJob ''j1'' ''General business analysis request'' (Fin 0) 0 zeroDraws)) \<and>
   map fst (fst (stream ''j1'' (QString ''again'') QUndefined 9 zeroDraws
                   (run sampleIds (Stream ''j1'' QUndefined QUndefined 0 zeroDraws
                                     # replicate 11 (Resume 0)) init))) =
     [''job-start'', ''plan'',
      ''agent-start'', ''agent-progress'', ''agent-complete'',
      ''agent-start'', ''agent-progress'', ''agent-complete'',
      ''agent-start'', ''agent-progress'', ''agent-complete'',
      ''agent-start'', ''agent-progress'', ''agent-complete'',
      ''agent-start'', ''agent-progress'', ''agent-complete'',
      ''job-complete'']"
proof -
  let ?e = "executeJob ''j1'' ''General business analysis request'' (Fin 0) 0 zeroDraws"
  let ?s = "run sampleIds (Stream ''j1'' QUndefined QUndefined 0 zeroDraws # replicate 11 (Resume 0)) init"
  from completed_example have c: "j_status (job ?e) = ''completed''"
    and g: "jobs_get ?s ''j1'' = Some (job ?e)"
    by simp_all
  have plan: "planAgents ''General business analysis request'' = baseAgents"
    by (simp add: planAgents_def toLowerCase_def lowerChar_def startsWith_def)
  from replay_same_event_order [OF c, of ?s "QString ''again''" QUndefined 9 zeroDraws] g
  have "map fst (replay ''j1'' (job ?e)) =
           ''job-start'' # ''plan''
             # concat (map (\<lambda>a. [''agent-start'', ''agent-progress'', ''agent-complete''])
                         (planAgents ''General business analysis request''))
             @ [''job-complete'']"
    "stream ''j1'' (QString ''again'') QUndefined 9 zeroDraws ?s = (replay ''j1'' (job ?e), ?s)"
    by blast+
  with c g show ?thesis
    by (simp add: plan baseAgents_def)
qed

subsection \<open>Progress and failed runs\<close>

text \<open>
  Claim C1. At every suspension point of a call of \<^verbatim>\<open>executeJob\<close> and at its return, a
  run of the job whose progress is 100 has status \<^verbatim>\<open>completed\<close>. (In its last step the
  code sets the progress to 100 a few statements before it sets the status; no
  suspension point lies between the two.) No run is \<^verbatim>\<open>failed\<close> at a suspension point: a
  failed run appears only in the job record the call returns with, and in that record
  the progress and the log lines of every run are those of the suspension point just
  before the failure. In the server, a job object that holds a failed run is never
  written again, whatever request or wake-up comes next.
\<close>

theorem progress_100_only_completed_and_failure_freezes:
  "(let e = executeJob jobId t p now rnd in
      (\<forall>j \<in> set (seen e @ [job e]). \<forall>r \<in> set (j_agents j).
          r_progress r = 100 \<longrightarrow> r_status r = ''completed'') \<and>
      (\<forall>j \<in> set (seen e). \<forall>r \<in> set (j_agents j). r_status r \<noteq> ''failed'') \<and>
      ((\<exists>r \<in> set (j_agents (job e)). r_status r = ''failed'') \<longrightarrow>
         ended e \<and> seen e \<noteq> [] \<and>
         map r_progress (j_agents (job e)) = map r_progress (j_agents (last (seen e))) \<and>
         map r_logs (j_agents (job e)) = map r_logs (j_agents (last (seen e))))) \<and>
   (reachable nanoid s \<and> a < length (heap s) \<and>
    (\<exists>r \<in> set (j_agents (heap s ! a)). r_status r = ''failed'') \<longrightarrow>
      heap (perform nanoid act s) ! a = heap s ! a)"
proof -
  have "reachable nanoid s \<and> a < length (heap s) \<and>
    (\<exists>r \<in> set (j_agents (heap s ! a)). r_status r = ''failed'') \<longrightarrow>
      heap (perform nanoid act s) ! a = heap s ! a"
  proof
    assume h: "reachable nanoid s \<and> a < length (heap s) \<and>
      (\<exists>r \<in> set (j_agents (heap s ! a)). r_status r = ''failed'')"
    then have ok: "server_ok s" by (blast intro: reachable_server_ok)
    from h have "heap s ! a \<in> set (heap s)" by simp
    with ok have "known (heap s ! a)" unfolding server_ok_def by blast
    with h have "j_status (heap s ! a) \<noteq> ''running''" unfolding known_def by blast
    with ok h show "heap (perform nanoid act s) ! a = heap s ! a"
      by (intro terminal_object_fixed) simp_all
  qed
  with call_states_progress [of jobId t p now rnd] show ?thesis by blast
qed

theorem progress_100_only_completed_and_failure_freezes_witness:
  "(\<exists>r \<in> set (j_agents (job (executeJob ''j1'' ''hello'' (Fin (1/2)) 7
                                   (\<lambda>k. if k = 2 then 1/4 else 3/4)))).
      r_status r = ''failed'') \<and>
   map r_progress (j_agents (last (seen (executeJob ''j1'' ''hello'' (Fin (1/2)) 7
                                          (\<lambda>k. if k = 2 then 1/4 else 3/4))))) = [100, 33] \<and>
   map r_progress (j_agents (job (executeJob ''j1'' ''hello'' (Fin (1/2)) 7
                                    (\<lambda>k. if k = 2 then 1/4 else 3/4)))) = [100, 33] \<and>
   map r_logs (j_agents (job (executeJob ''j1'' ''hello'' (Fin (1/2)) 7
                                (\<lambda>k. if k = 2 then 1/4 else 3/4)))) =
     [[''Planner: completed step 1/1''], [''Researcher: completed step 1/3'']] \<and>
   length (seen (executeJob ''j1'' ''hello'' (Fin (1/2)) 7 (\<lambda>k. if k = 2 then 1/4 else 3/4))) = 3 \<and>
   reachable sampleIds
     (run sampleIds [Stream ''j1'' QUndefined (QString ''1'') 0 zeroDraws, Resume 0] init) \<and>
   (0::nat) < length (heap (run sampleIds [Stream ''j1'' QUndefined (QString ''1'') 0 zeroDraws, Resume 0]
                              init)) \<and>
   map r_status
     (j_agents (heap (run sampleIds [Stream ''j1'' QUndefined (QString ''1'') 0 zeroDraws, Resume 0] init)
                  ! 0)) = [''failed''] \<and>
   heap (perform sampleIds (Stream ''j1'' QUndefined QUndefined 5 zeroDraws)
           (run sampleIds [Stream ''j1'' QUndefined (QString ''1'') 0 zeroDraws, Resume 0] init)) ! 0
     = heap (run sampleIds [Stream ''j1'' QUndefined (QString ''1'') 0 zeroDraws, Resume 0] init) ! 0"
proof -
  let ?e = "executeJob ''j1'' ''hello'' (Fin (1/2)) 7 (\<lambda>k. if k = 2 then 1/4 else 3/4)"
  let ?t = "run sampleIds [Stream ''j1'' QUndefined (QString ''1'') 0 zeroDraws, Resume 0] init"
  have ex: "\<exists>r \<in> set (j_agents (job ?e)). r_status r = ''failed''"
    by code_simp
  have vals: "map r_progress (j_agents (last (seen ?e))) = [100, 33]"
    "map r_logs (j_agents (last (seen ?e))) =
       [[''Planner: completed step 1/1''], [''Researcher: completed step 1/3'']]"
    "length (seen ?e) = 3"
    by code_simp+
  have rt: "reachable sampleIds ?t"
    by (rule reachable_run) (rule reachable_init)
  have at: "0 < length (heap ?t)" "map r_status (j_agents (heap ?t ! 0)) = [''failed'']"
    by code_simp+
  from at(2) have fl: "\<exists>r \<in> set (j_agents (heap ?t ! 0)). r_status r = ''failed''"
    by (cases "j_agents (heap ?t ! 0)") auto
  note T = progress_100_only_completed_and_failure_freezes
         [of "''j1''" "''hello''" "Fin (1/2)" 7 "\<lambda>k. if k = 2 then 1/4 else 3/4" sampleIds ?t 0
             "Stream ''j1'' QUndefined QUndefined 5 zeroDraws"]
  from T ex
  have "map r_progress (j_agents (job ?e)) = map r_progress (j_agents (last (seen ?e)))"
    "map r_logs (j_agents (job ?e)) = map r_logs (j_agents (last (seen ?e)))"
    unfolding Let_def by blast+
  moreover from T rt at(1) fl
  have "heap (perform sampleIds (Stream ''j1'' QUndefined QUndefined 5 zeroDraws) ?t) ! 0 = heap ?t ! 0"
    by blast
  ultimately show ?thesis
    using ex vals rt at by simp
qed

end
